theory Spec2Isabelle
  imports Main "HOL-Library.AList" "HOL-Library.Sublist" "HOL-Library.Char_ord"
    "HOL-Library.List_Lexorder"
begin

section \<open>Python values and errors\<close>

text \<open>
  The source is dynamically typed Python. A value is a string, a number, a list, a
  dictionary (an association list with distinct keys, in insertion order) or a callable
  (only its name is kept). An exception is a value of \<open>error\<close>; a function that
  can raise returns \<open>error + 'a\<close>, with \<open>Inl\<close> the exception.
\<close>

datatype val =
    VNone
  | VBool bool
  | VInt int
  | VStr string
  | VList "val list"
  | VDict "(string \<times> val) list"
  | VCallable string

datatype error =
    TypeError
  | KeyError
  | AttributeError
  | ValueError
  | RateLimitError
  | InternalServerError
  | OtherError string
  | MaxRetriesReached
  | NoSuchNode
  | Shadowing

type_synonym kwargs = "(string \<times> val) list"

section \<open>ConversationNode (src/src/base.py)\<close>

text \<open>
  Nodes are objects with identity: \<open>add_reply\<close> mutates the receiver, and \<open>parent\<close>
  and \<open>replies\<close> are references. The heap is the list of all nodes ever allocated; an
  address is an index into it, and a new object is appended at the end.
\<close>

type_synonym addr = nat

record node =
  role :: val
  content :: val
  attrs :: "(string \<times> val) list"
  replies :: "addr list"
  parent :: "addr option"

type_synonym heap = "node list"

text \<open>\<open>for key, value in kwargs.items(): setattr(self, key, value)\<close>\<close>

fun setattrs :: "kwargs \<Rightarrow> (string \<times> val) list \<Rightarrow> (string \<times> val) list" where
  "setattrs [] al = al"
| "setattrs ((k, v) # kw) al = setattrs kw (AList.update k v al)"

text \<open>
  Extra attributes share the object's one namespace with its methods. The keyword
  \<open>self\<close> cannot be passed at all: \<open>__init__(self, content, role, **kwargs)\<close> and
  \<open>add_reply(self, **kwargs)\<close> already have a \<open>self\<close>, and the call is a TypeError.
  A keyword that is the name of a method of \<open>ConversationNode\<close>, or that starts with
  two underscores (\<open>__init__\<close>, \<open>__class__\<close>, \<open>__dict__\<close>, ...), would be stored on
  the object and found there before the method of the class: the next
  \<open>self.is_empty()\<close> or \<open>build_messages()\<close> would call that value. What the object
  does from then on depends on the value stored and no longer on the code of the class.
  The model is of the nodes without such an attribute; every other name is ordinary.
\<close>

definition method_names :: "string list" where
  "method_names =
     [''create_empty'', ''is_empty'', ''add_reply'', ''find_root'', ''root_dict'',
      ''_to_dict_recursive'', ''_to_dict_self'', ''build_messages'', ''from_dict'',
      ''node_count'']"

definition dunder :: "string \<Rightarrow> bool" where
  "dunder k = (take 2 k = ''__'')"

definition ordinary_name :: "string \<Rightarrow> bool" where
  "ordinary_name k = (k \<noteq> ''self'' \<and> k \<notin> set method_names \<and> \<not> dunder k)"

definition ordinary_kwargs :: "kwargs \<Rightarrow> bool" where
  "ordinary_kwargs kw = list_all ordinary_name (map fst kw)"

definition ordinary_node :: "node \<Rightarrow> bool" where
  "ordinary_node n = list_all ordinary_name (map fst (attrs n))"

text \<open>
  \<open>__init__(self, content, role, **kwargs)\<close>, run on an object whose extra attributes
  are \<open>old\<close> (empty for a new object). A call with the keyword \<open>self\<close>, or without
  \<open>content\<close> or \<open>role\<close>, is a TypeError, raised before the body runs. The
  assignments to \<open>replies\<close> and \<open>parent\<close> come after the \<open>setattr\<close> loop, so an
  extra attribute of either name is overwritten. \<open>Shadowing\<close> is not a Python
  exception: it marks a call whose keywords would store an attribute under the name of a
  method, which gives an object that the model does not follow.
\<close>

definition init_node :: "(string \<times> val) list \<Rightarrow> kwargs \<Rightarrow> error + node" where
  "init_node old kw =
     (if ''self'' \<in> fst ` set kw then Inl TypeError
      else
       (case map_of kw ''content'' of
          None \<Rightarrow> Inl TypeError
        | Some c \<Rightarrow>
           (case map_of kw ''role'' of
              None \<Rightarrow> Inl TypeError
            | Some r \<Rightarrow>
                if \<not> ordinary_kwargs kw then Inl Shadowing
                else
                  Inr \<lparr> role = r, content = c,
                        attrs = AList.delete ''parent'' (AList.delete ''replies''
                          (setattrs (filter (\<lambda>(k, v). k \<noteq> ''content'' \<and> k \<noteq> ''role'') kw) old)),
                        replies = [], parent = None \<rparr>)))"

definition create_empty :: node where
  "create_empty =
     \<lparr> role = VStr ''empty'', content = VStr '''', attrs = [], replies = [], parent = None \<rparr>"

definition is_empty :: "node \<Rightarrow> bool" where
  "is_empty n = (role n = VStr ''empty'' \<and> content n = VStr '''')"

text \<open>
  \<open>add_reply\<close> on the node at address \<open>a\<close>: the new heap and the address returned.
\<close>

definition add_reply :: "heap \<Rightarrow> addr \<Rightarrow> kwargs \<Rightarrow> error + (heap \<times> addr)" where
  "add_reply h a kw =
     (if is_empty (h ! a) then
        (case init_node (attrs (h ! a)) kw of
           Inl e \<Rightarrow> Inl e
         | Inr n \<Rightarrow> Inr (h[a := n], a))
      else
        (case init_node [] kw of
           Inl e \<Rightarrow> Inl e
         | Inr n \<Rightarrow>
             Inr ((h @ [n\<lparr>parent := Some a\<rparr>])
                    [a := (h ! a)\<lparr>replies := replies (h ! a) @ [length h]\<rparr>],
                  length h)))"

definition entry :: "node \<Rightarrow> val" where
  "entry n = VDict [(''role'', role n), (''content'', content n)]"

text \<open>
  The loop of \<open>build_messages\<close>: \<open>while node: ...; node = node.parent\<close>. It ends when
  the parent chain does; on a cyclic chain it would not return, which is \<open>None\<close> here.
\<close>

partial_function (option) walk :: "heap \<Rightarrow> addr option \<Rightarrow> val list \<Rightarrow> val list option" where
  "walk h nd acc =
     (case nd of
        None \<Rightarrow> Some acc
      | Some a \<Rightarrow> walk h (parent (h ! a)) (entry (h ! a) # acc))"

definition build_messages :: "heap \<Rightarrow> addr \<Rightarrow> val list option" where
  "build_messages h a = (if is_empty (h ! a) then Some [] else walk h (Some a) [])"

text \<open>
  A sequence of \<open>add_reply\<close> calls, each on an existing node \<open>t\<close> of the tree; the
  node returned becomes the current one. \<open>NoSuchNode\<close> is not a Python exception: it
  marks a call sequence that names an object that was never created.
\<close>

fun replay :: "(addr \<times> kwargs) list \<Rightarrow> heap \<times> addr \<Rightarrow> error + (heap \<times> addr)" where
  "replay [] s = Inr s"
| "replay ((t, kw) # cs) (h, cur) =
     (if t < length h then
        (case add_reply h t kw of Inl e \<Rightarrow> Inl e | Inr s' \<Rightarrow> replay cs s')
      else Inl NoSuchNode)"

definition sentinel_kwargs :: "kwargs \<Rightarrow> bool" where
  "sentinel_kwargs kw =
     (map_of kw ''role'' = Some (VStr ''empty'') \<and> map_of kw ''content'' = Some (VStr ''''))"

text \<open>A path that follows \<open>replies\<close> links downwards.\<close>

fun is_path :: "heap \<Rightarrow> addr list \<Rightarrow> bool" where
  "is_path h [] = False"
| "is_path h [a] = True"
| "is_path h (a # b # p) = (b \<in> set (replies (h ! a)) \<and> is_path h (b # p))"

text \<open>
  What holds of the heap after a sequence of calls none of which passes the sentinel's
  values: node 0 is the root, no node is empty, and every other node is in the
  \<open>replies\<close> of its parent, which is an older node.
\<close>

definition tree_inv :: "heap \<Rightarrow> bool" where
  "tree_inv h =
     (0 < length h \<and> parent (h ! 0) = None \<and>
      (\<forall>a < length h. \<not> is_empty (h ! a)) \<and>
      (\<forall>a < length h. 0 < a \<longrightarrow> (\<exists>q < a. parent (h ! a) = Some q \<and> a \<in> set (replies (h ! q)))))"

subsection \<open>Example trees\<close>

definition ex_calls :: "(addr \<times> kwargs) list" where
  "ex_calls =
     [(0, [(''content'', VStr ''hello''), (''role'', VStr ''user'')]),
      (0, [(''content'', VStr ''hi there''), (''role'', VStr ''assistant'')]),
      (0, [(''content'', VStr ''hey''), (''role'', VStr ''assistant'')])]"

definition ex_heap :: heap where
  "ex_heap =
     [\<lparr> role = VStr ''user'', content = VStr ''hello'', attrs = [], replies = [1, 2], parent = None \<rparr>,
      \<lparr> role = VStr ''assistant'', content = VStr ''hi there'', attrs = [], replies = [], parent = Some 0 \<rparr>,
      \<lparr> role = VStr ''assistant'', content = VStr ''hey'', attrs = [], replies = [], parent = Some 0 \<rparr>]"

definition cex_calls :: "(addr \<times> kwargs) list" where
  "cex_calls =
     [(0, [(''content'', VStr ''hello''), (''role'', VStr ''user'')]),
      (0, [(''content'', VStr ''''), (''role'', VStr ''empty'')])]"

definition cex_heap :: heap where
  "cex_heap =
     [\<lparr> role = VStr ''user'', content = VStr ''hello'', attrs = [], replies = [1], parent = None \<rparr>,
      \<lparr> role = VStr ''empty'', content = VStr '''', attrs = [], replies = [], parent = Some 0 \<rparr>]"

section \<open>Content merge (src/src/anthropic_bots.py)\<close>

text \<open>
  \<open>str.isspace\<close> for the code points below 256, and \<open>str.strip()\<close>, which removes
  the whitespace at both ends.
\<close>

definition isspace :: "char \<Rightarrow> bool" where
  "isspace c = ((of_char c :: nat) \<in> {9, 10, 11, 12, 13, 28, 29, 30, 31, 32, 133, 160})"

definition strip :: "string \<Rightarrow> string" where
  "strip s = rev (dropWhile isspace (rev (dropWhile isspace s)))"

text \<open>\<open>x[k]\<close> for a string key: a KeyError on a dictionary without the key, a TypeError
  on a value that is not a dictionary.\<close>

fun getitem :: "val \<Rightarrow> string \<Rightarrow> error + val" where
  "getitem (VDict kvs) k = (case map_of kvs k of None \<Rightarrow> Inl KeyError | Some v \<Rightarrow> Inr v)"
| "getitem v k = Inl TypeError"

definition text_seg :: "string \<Rightarrow> val" where
  "text_seg s = VDict [(''type'', VStr ''text''), (''text'', VStr s)]"

text \<open>
  \<open>merge_content(existing_content, new_content)\<close>. The branches are the source's
  \<open>isinstance\<close> tests, in its order. In the branch of a list followed by a string the
  source updates the last dictionary of the list in place and returns the list; the value
  returned is the one here.
\<close>

fun merge_content :: "val \<Rightarrow> val \<Rightarrow> error + val" where
  "merge_content (VStr e) (VStr n) = Inr (VStr (strip (e @ n)))"
| "merge_content (VStr e) (VList n) =
     (case n of
        [] \<Rightarrow> Inr (VList (text_seg (strip e) # n))
      | x # rest \<Rightarrow>
          (case getitem x ''type'' of
             Inl err \<Rightarrow> Inl err
           | Inr t \<Rightarrow>
               if t = VStr ''text'' then
                 (case getitem x ''text'' of
                    Inl err \<Rightarrow> Inl err
                  | Inr (VStr s) \<Rightarrow> Inr (VList (text_seg (strip (e @ s)) # rest))
                  | Inr _ \<Rightarrow> Inl TypeError)
               else Inr (VList (text_seg (strip e) # n))))"
| "merge_content (VList e) (VList n) = Inr (VList n)"
| "merge_content (VList e) (VStr n) =
     (if e = [] then Inr (VList (e @ [text_seg (strip n)]))
      else
        (case getitem (last e) ''type'' of
           Inl err \<Rightarrow> Inl err
         | Inr t \<Rightarrow>
             if t = VStr ''text'' then
               (case getitem (last e) ''text'' of
                  Inl err \<Rightarrow> Inl err
                | Inr (VStr s) \<Rightarrow>
                    (case last e of
                       VDict kvs \<Rightarrow>
                         Inr (VList (butlast e @
                           [VDict (AList.update ''text'' (VStr (strip (s @ n))) kvs)]))
                     | _ \<Rightarrow> Inl TypeError)
                | Inr _ \<Rightarrow> Inl TypeError)
             else Inr (VList (e @ [text_seg (strip n)]))))"
| "merge_content e n = Inl ValueError"

text \<open>What a content holds: its text, in order, and its segments that are not text.\<close>

definition is_text_seg :: "val \<Rightarrow> bool" where
  "is_text_seg x = (getitem x ''type'' = Inr (VStr ''text''))"

definition seg_text :: "val \<Rightarrow> string" where
  "seg_text x =
     (if is_text_seg x then (case getitem x ''text'' of Inr (VStr s) \<Rightarrow> s | _ \<Rightarrow> []) else [])"

fun all_text :: "val \<Rightarrow> string" where
  "all_text (VStr s) = s"
| "all_text (VList xs) = concat (map seg_text xs)"
| "all_text v = []"

fun non_text :: "val \<Rightarrow> val list" where
  "non_text (VList xs) = filter (\<lambda>x. \<not> is_text_seg x) xs"
| "non_text v = []"

text \<open>The recognised shapes: a string, or a list of dictionaries that each have a
  \<open>type\<close>, and a string \<open>text\<close> when the type is \<open>text\<close>.\<close>

definition wf_seg :: "val \<Rightarrow> bool" where
  "wf_seg x =
     (case getitem x ''type'' of
        Inl err \<Rightarrow> False
      | Inr t \<Rightarrow> if t = VStr ''text''
                then (case getitem x ''text'' of Inr (VStr s) \<Rightarrow> True | _ \<Rightarrow> False)
                else True)"

fun wf_content :: "val \<Rightarrow> bool" where
  "wf_content (VStr s) = True"
| "wf_content (VList xs) = list_all wf_seg xs"
| "wf_content v = False"

fun is_list :: "val \<Rightarrow> bool" where
  "is_list (VList xs) = True"
| "is_list v = False"

fun is_str :: "val \<Rightarrow> bool" where
  "is_str (VStr s) = True"
| "is_str v = False"

text \<open>A segment that is not text, for the examples.\<close>

definition tool_use_seg :: val where
  "tool_use_seg =
     VDict [(''type'', VStr ''tool_use''), (''id'', VStr ''1''), (''name'', VStr ''add''),
            (''input'', VDict [(''a'', VStr ''2''), (''b'', VStr ''3'')])]"

section \<open>The provider client\<close>

text \<open>
  The payload is the \<open>create_dict\<close> of \<open>_send_message_implementation\<close>; the keys
  \<open>system\<close> and \<open>tools\<close> are set only when there is something to send.
\<close>

record payload =
  p_model :: val
  p_max_tokens :: val
  p_temperature :: val
  p_messages :: "val list"
  p_system :: "val option"
  p_tools :: "val list option"

text \<open>A content block of a provider reply, and the reply.\<close>

datatype block =
    TextBlock string
  | ToolUseBlock string string kwargs

record response =
  r_content :: "block list"
  r_stop_reason :: string
  r_role :: string

text \<open>
  \<open>client.messages.create\<close> is outside the repository. It is a parameter here: what the
  call returns or raises, given the number of calls made before it and the payload.
\<close>

datatype outcome = Returns response | Raises error

type_synonym client = "nat \<Rightarrow> payload \<Rightarrow> outcome"

section \<open>Send with retry (src/src/anthropic_bots.py)\<close>

definition max_retries :: nat where
  "max_retries = 25"

text \<open>\<open>except (anthropic.InternalServerError, anthropic.RateLimitError)\<close>\<close>

definition transient :: "error \<Rightarrow> bool" where
  "transient e = (e = InternalServerError \<or> e = RateLimitError)"

text \<open>
  The loop \<open>for attempt in range(max_retries)\<close>, from a given attempt on. \<open>n0\<close> is the
  number of calls the client had received before the loop. The result is what the function
  returns or raises, the number of calls made, and what the last attempt prints for
  debugging (the payload). The sleep between two attempts is not modelled. The last
  line is the \<open>raise Exception("Max retries reached...")\<close> after the loop.
\<close>

function retry_from :: "client \<Rightarrow> payload \<Rightarrow> nat \<Rightarrow> nat \<Rightarrow> (error + response) \<times> nat \<times> payload list" where
  "retry_from cl p n0 attempt =
     (if attempt < max_retries then
        (case cl (n0 + attempt) p of
           Returns r \<Rightarrow> (Inr r, attempt + 1, [])
         | Raises e \<Rightarrow>
             if transient e then
               (if attempt = max_retries - 1 then (Inl e, attempt + 1, [p])
                else retry_from cl p n0 (attempt + 1))
             else (Inl e, attempt + 1, []))
      else (Inl MaxRetriesReached, attempt, []))"
  by pat_completeness auto

termination
  by (relation "measure (\<lambda>(cl, p, n0, attempt). max_retries - attempt)") auto

definition send_with_retry :: "client \<Rightarrow> payload \<Rightarrow> nat \<Rightarrow> (error + response) \<times> nat \<times> payload list" where
  "send_with_retry cl p n0 = retry_from cl p n0 0"

text \<open>Stub clients and a payload, for the examples.\<close>

definition ok_response :: response where
  "ok_response = \<lparr> r_content = [TextBlock ''hi there''], r_stop_reason = ''end_turn'', r_role = ''assistant'' \<rparr>"

definition fails_then_ok :: "nat \<Rightarrow> client" where
  "fails_then_ok k = (\<lambda>i p. if i < k then Raises RateLimitError else Returns ok_response)"

definition always_rate_limited :: client where
  "always_rate_limited = (\<lambda>i p. Raises RateLimitError)"

definition fatal_at :: "nat \<Rightarrow> client" where
  "fatal_at k = (\<lambda>i p. if i < k then Raises InternalServerError else Raises (OtherError ''bad request''))"

definition ex_payload :: payload where
  "ex_payload =
     \<lparr> p_model = VStr ''claude-3-5-sonnet-20240620'', p_max_tokens = VInt 4096, p_temperature = VStr ''0.3'',
       p_messages = [VDict [(''role'', VStr ''user''), (''content'', VStr ''hello'')]],
       p_system = None, p_tools = None \<rparr>"

section \<open>ToolHandler (src/src/base.py, src/src/anthropic_bots.py)\<close>

text \<open>
  A tool is a Python callable invoked with keyword arguments. It may have side effects:
  it takes the state of the world \<open>'w\<close> and returns the new one, with its return value or
  the exception it raises.
\<close>

type_synonym 'w tool = "kwargs \<Rightarrow> 'w \<Rightarrow> (error + val) \<times> 'w"

record 'w tool_handler =
  tools :: "val list"
  function_map :: "(string \<times> 'w tool) list"
  requests :: "val list"
  results :: "val list"

definition clear :: "'w tool_handler \<Rightarrow> 'w tool_handler" where
  "clear th = th\<lparr>results := [], requests := []\<rparr>"

text \<open>\<open>AnthropicToolHandler.generate_request_schema\<close>: one request for each
  \<open>tool_use\<close> block, in the order of the reply.\<close>

fun request_of :: "block \<Rightarrow> val list" where
  "request_of (ToolUseBlock i n inp) =
     [VDict [(''type'', VStr ''tool_use''), (''id'', VStr i), (''name'', VStr n), (''input'', VDict inp)]]"
| "request_of (TextBlock s) = []"

definition generate_request_schema :: "response \<Rightarrow> val list" where
  "generate_request_schema resp = concat (map request_of (r_content resp))"

definition tool_name_and_input :: "val \<Rightarrow> error + (val \<times> val)" where
  "tool_name_and_input request_schema =
     (case getitem request_schema ''name'' of
        Inl e \<Rightarrow> Inl e
      | Inr tool_name \<Rightarrow>
          (case getitem request_schema ''input'' of
             Inl e \<Rightarrow> Inl e
           | Inr tool_input \<Rightarrow> Inr (tool_name, tool_input)))"

text \<open>\<open>request.get("id", "unknown id")\<close> needs a dictionary.\<close>

definition generate_response_schema :: "val \<Rightarrow> val \<Rightarrow> error + val" where
  "generate_response_schema request tool_output_kwargs =
     (case request of
        VDict kvs \<Rightarrow>
          Inr (VDict [(''type'', VStr ''tool_result''),
                      (''tool_use_id'', (case map_of kvs ''id'' of None \<Rightarrow> VStr ''unknown id'' | Some v \<Rightarrow> v)),
                      (''content'', tool_output_kwargs)])
      | _ \<Rightarrow> Inl AttributeError)"

text \<open>\<open>self.function_map[tool_name]\<close>: a KeyError for a name that is not registered,
  a TypeError for a key that cannot be hashed.\<close>

fun lookup_tool :: "(string \<times> 'w tool) list \<Rightarrow> val \<Rightarrow> error + 'w tool" where
  "lookup_tool fm (VStr n) = (case map_of fm n of None \<Rightarrow> Inl KeyError | Some f \<Rightarrow> Inr f)"
| "lookup_tool fm (VList xs) = Inl TypeError"
| "lookup_tool fm (VDict kvs) = Inl TypeError"
| "lookup_tool fm v = Inl KeyError"

fun name_str :: "val \<Rightarrow> string" where
  "name_str (VStr n) = n"
| "name_str v = []"

text \<open>
  The loop \<open>for request_schema in requests\<close> of \<open>handle_response\<close>. An exception leaves
  the loop with the handler and the world as they are at that point. The last component
  records the calls made to tools (name and keyword arguments), in order; it is an
  observation of the run, not a field of the source.
\<close>

fun handle_requests ::
  "'w tool_handler \<Rightarrow> val list \<Rightarrow> 'w \<Rightarrow> (string \<times> kwargs) list \<Rightarrow>
     error option \<times> 'w tool_handler \<times> 'w \<times> (string \<times> kwargs) list" where
  "handle_requests th [] w tr = (None, th, w, tr)"
| "handle_requests th (request_schema # rest) w tr =
     (case tool_name_and_input request_schema of
        Inl e \<Rightarrow> (Some e, th, w, tr)
      | Inr (tool_name, input_kwargs) \<Rightarrow>
          (case lookup_tool (function_map th) tool_name of
             Inl e \<Rightarrow> (Some e, th, w, tr)
           | Inr f \<Rightarrow>
               (case input_kwargs of
                  VDict kw \<Rightarrow>
                    (case f kw w of
                       (Inl e, w1) \<Rightarrow> (Some e, th, w1, tr @ [(name_str tool_name, kw)])
                     | (Inr output_kwargs, w1) \<Rightarrow>
                         (case generate_response_schema request_schema output_kwargs of
                            Inl e \<Rightarrow> (Some e, th, w1, tr @ [(name_str tool_name, kw)])
                          | Inr response_schema \<Rightarrow>
                              handle_requests
                                (th\<lparr>requests := requests th @ [request_schema],
                                    results := results th @ [response_schema]\<rparr>)
                                rest w1 (tr @ [(name_str tool_name, kw)])))
                | _ \<Rightarrow> (Some TypeError, th, w, tr))))"

definition handle_response ::
  "'w tool_handler \<Rightarrow> response \<Rightarrow> 'w \<Rightarrow>
     (error + (val list \<times> val list)) \<times> 'w tool_handler \<times> 'w \<times> (string \<times> kwargs) list" where
  "handle_response th resp w =
     (case handle_requests (clear th) (generate_request_schema resp) w [] of
        (None, th1, w1, tr) \<Rightarrow> (Inr (requests th1, results th1), th1, w1, tr)
      | (Some e, th1, w1, tr) \<Rightarrow> (Inl e, th1, w1, tr))"

fun call_of :: "block \<Rightarrow> (string \<times> kwargs) list" where
  "call_of (ToolUseBlock i n inp) = [(n, inp)]"
| "call_of (TextBlock s) = []"

text \<open>A result answers a request when its \<open>tool_use_id\<close> is the request's \<open>id\<close>;
  \<open>result_of\<close> is the result built for a request with id \<open>i\<close> and tool output \<open>out\<close>.\<close>

definition aligned :: "val \<Rightarrow> val \<Rightarrow> bool" where
  "aligned result request = (getitem result ''tool_use_id'' = getitem request ''id'')"

definition result_of :: "string \<Rightarrow> val \<Rightarrow> val" where
  "result_of i out = VDict [(''type'', VStr ''tool_result''), (''tool_use_id'', VStr i), (''content'', out)]"

text \<open>Two tools, a handler and replies, for the examples. The world counts the calls.\<close>

definition add_tool :: "nat tool" where
  "add_tool kw w =
     (case (map_of kw ''a'', map_of kw ''b'') of
        (Some (VInt a), Some (VInt b)) \<Rightarrow> (Inr (VInt (a + b)), w + 1)
      | _ \<Rightarrow> (Inl TypeError, w + 1))"

definition boom_tool :: "nat tool" where
  "boom_tool kw w = (Inl (OtherError ''boom''), w + 1)"

definition ex_handler :: "nat tool_handler" where
  "ex_handler =
     \<lparr> tools = [], function_map = [(''add'', add_tool), (''boom'', boom_tool)],
       requests = [VStr ''stale''], results = [] \<rparr>"

definition ex_reply :: "block list \<Rightarrow> response" where
  "ex_reply bs = \<lparr> r_content = bs, r_stop_reason = ''tool_use'', r_role = ''assistant'' \<rparr>"

definition add_block :: block where
  "add_block = ToolUseBlock ''1'' ''add'' [(''a'', VInt 2), (''b'', VInt 3)]"

definition ex_handler_after :: "nat tool_handler" where
  "ex_handler_after =
     ex_handler\<lparr>requests := request_of add_block, results := [result_of ''1'' (VInt 5)]\<rparr>"

text \<open>A tool that raises KeyError, as a failed dictionary lookup in its body does, and a
  handler with it.\<close>

definition lookup_tool_fn :: "nat tool" where
  "lookup_tool_fn kw w = (Inl KeyError, w + 1)"

definition cex_handler :: "nat tool_handler" where
  "cex_handler =
     \<lparr> tools = [], function_map = [(''lookup'', lookup_tool_fn), (''boom'', boom_tool)],
       requests = [], results = [] \<rparr>"

section \<open>AnthropicMailbox (src/src/anthropic_bots.py)\<close>

text \<open>Python truthiness, as \<open>if x:\<close> tests it.\<close>

fun truthy :: "val \<Rightarrow> bool" where
  "truthy VNone = False"
| "truthy (VBool b) = b"
| "truthy (VInt i) = (i \<noteq> 0)"
| "truthy (VStr s) = (s \<noteq> [])"
| "truthy (VList xs) = (xs \<noteq> [])"
| "truthy (VDict kvs) = (kvs \<noteq> [])"
| "truthy (VCallable f) = True"












section \<open>Bot (src/src/base.py)\<close>

text \<open>
  \<open>Mailbox.send_message\<close> is abstract in its two steps and writes a log file. It is a
  parameter here: given the state \<open>'s\<close> of the mailbox and its surroundings, the heap and
  the current node of the bot, it returns the reply \<open>(text, role, extra_data)\<close> or raises,
  and may change the state and the heap.
\<close>

type_synonym 's send_message =
  "'s \<Rightarrow> heap \<Rightarrow> addr \<Rightarrow> (error + (string \<times> string \<times> kwargs)) \<times> 's \<times> heap"

record 's bot =
  heap :: heap
  conversation :: "addr option"
  mstate :: 's

text \<open>
  \<open>_cvsn_respond(text, role)\<close>. \<open>self.conversation\<close> is assigned as soon as the new
  turn is added, before the send. The mailbox reads the current node of the bot, which
  \<open>None\<close> does not have (AttributeError). A reply whose \<open>extra_data\<close> has a key \<open>content\<close> or
  \<open>role\<close> makes the call of \<open>add_reply\<close> a TypeError (two values for one keyword).
\<close>

definition cvsn_respond ::
  "'s send_message \<Rightarrow> 's bot \<Rightarrow> val option \<Rightarrow> val \<Rightarrow> (error + (string \<times> addr)) \<times> 's bot" where
  "cvsn_respond send b text role' =
     (if conversation b = None \<and> text = None then (Inl ValueError, b)
      else
        (case (case text of
                 None \<Rightarrow> Inr b
               | Some t \<Rightarrow>
                   (case conversation b of
                      None \<Rightarrow> Inl AttributeError
                    | Some c \<Rightarrow>
                        (case add_reply (heap b) c [(''content'', t), (''role'', role')] of
                           Inl e \<Rightarrow> Inl e
                         | Inr (h1, c1) \<Rightarrow> Inr (b\<lparr>heap := h1, conversation := Some c1\<rparr>)))) of
           Inl e \<Rightarrow> (Inl e, b)
         | Inr b1 \<Rightarrow>
             (case conversation b1 of
                None \<Rightarrow> (Inl AttributeError, b1)
              | Some c1 \<Rightarrow>
                  (case send (mstate b1) (heap b1) c1 of
                     (Inl e, s2, h2) \<Rightarrow> (Inl e, b1\<lparr>heap := h2, mstate := s2\<rparr>)
                   | (Inr (response_text, response_role, extra_data), s2, h2) \<Rightarrow>
                       (if ''content'' \<in> fst ` set extra_data \<or> ''role'' \<in> fst ` set extra_data
                        then (Inl TypeError, b1\<lparr>heap := h2, mstate := s2\<rparr>)
                        else
                          (case add_reply h2 c1
                                  ([(''content'', VStr response_text), (''role'', VStr response_role)]
                                   @ extra_data) of
                             Inl e \<Rightarrow> (Inl e, b1\<lparr>heap := h2, mstate := s2\<rparr>)
                           | Inr (h3, c3) \<Rightarrow>
                               (Inr (response_text, c3),
                                b1\<lparr>heap := h3, conversation := Some c3, mstate := s2\<rparr>)))))))"

text \<open>\<open>respond(content, role, tool_auto=False)\<close>: the reply text, and the bot.\<close>

definition respond :: "'s send_message \<Rightarrow> 's bot \<Rightarrow> val \<Rightarrow> val \<Rightarrow> (error + string) \<times> 's bot" where
  "respond send b content' role' =
     (case cvsn_respond send b (Some content') role' of
        (Inl e, b1) \<Rightarrow> (Inl e, b1)
      | (Inr (reply, c), b1) \<Rightarrow> (Inr reply, b1\<lparr>conversation := Some c\<rparr>))"

text \<open>Decimal digits of a number, for the f-string of the follow-up prompt.\<close>

function str_nat :: "nat \<Rightarrow> string" where
  "str_nat n = (if n < 10 then [char_of (48 + n)] else str_nat (n div 10) @ [char_of (48 + n mod 10)])"
  by pat_completeness auto

termination
  by (relation "measure id") auto

definition max_tool_prompts :: nat where
  "max_tool_prompts = 8"

text \<open>\<open>getattr(self.conversation, 'attributes', {})\<close>; the default also when the
  conversation is \<open>None\<close>.\<close>

definition getattr_attributes :: "heap \<Rightarrow> addr option \<Rightarrow> val" where
  "getattr_attributes h c =
     (case c of
        None \<Rightarrow> VDict []
      | Some a \<Rightarrow> (case map_of (attrs (h ! a)) ''attributes'' of None \<Rightarrow> VDict [] | Some v \<Rightarrow> v))"

text \<open>\<open>extra_data.get('requests')\<close>: only a dictionary has \<open>get\<close>.\<close>

fun dict_get :: "val \<Rightarrow> string \<Rightarrow> error + val" where
  "dict_get (VDict kvs) k = (case map_of kvs k of None \<Rightarrow> Inr VNone | Some v \<Rightarrow> Inr v)"
| "dict_get v k = Inl AttributeError"

text \<open>
  The \<open>while\<close> loop of \<open>_respond_auto\<close>, from a given value of \<open>tool_prompt_counter\<close>
  and of \<open>total_reply\<close>. What it prints is left out.
\<close>

function auto_loop ::
  "'s send_message \<Rightarrow> 's bot \<Rightarrow> val \<Rightarrow> string \<Rightarrow> nat \<Rightarrow> (error + string) \<times> 's bot" where
  "auto_loop send b role' total_reply tool_prompt_counter =
     (if tool_prompt_counter < max_tool_prompts then
        (case dict_get (getattr_attributes (heap b) (conversation b)) ''requests'' of
           Inl e \<Rightarrow> (Inl e, b)
         | Inr v \<Rightarrow>
             if truthy v then
               (case respond send b
                       (VStr (''(auto for '' @ str_nat (max_tool_prompts - tool_prompt_counter) @
                              '' more tool calls max)''))
                       role' of
                  (Inl e, b1) \<Rightarrow> (Inl e, b1)
                | (Inr response, b1) \<Rightarrow>
                    auto_loop send b1 role'
                      (total_reply @ [CHR 0x0A, CHR 0x0A] @ '' ...working... '' @ [CHR 0x0A, CHR 0x0A] @ response)
                      (tool_prompt_counter + 1))
             else (Inr total_reply, b))
      else (Inr total_reply, b))"
  by pat_completeness auto

termination
  by (relation "measure (\<lambda>(send, b, r, t, n). max_tool_prompts - n)") auto

definition respond_auto :: "'s send_message \<Rightarrow> 's bot \<Rightarrow> val \<Rightarrow> val \<Rightarrow> (error + string) \<times> 's bot" where
  "respond_auto send b content' role' =
     (case respond send b content' role' of
        (Inl e, b1) \<Rightarrow> (Inl e, b1)
      | (Inr response, b1) \<Rightarrow> auto_loop send b1 role' response 1)"

text \<open>
  Stub mailboxes that report a pending tool request with every reply and count the sends:
  one returns \<open>extra_data\<close> in the shape of \<open>AnthropicMailbox._process_response\<close>, the
  other puts the requests under a key \<open>attributes\<close>. A bot on the sentinel tree.
\<close>

definition tool_stub :: "nat send_message" where
  "tool_stub = (\<lambda>s h c.
     (Inr (''working'', ''assistant'',
           [(''requests'', VList (request_of add_block)),
            (''results'', VList [result_of ''1'' (VInt 5)])]),
      s + 1, h))"

definition attributes_stub :: "nat send_message" where
  "attributes_stub = (\<lambda>s h c.
     (Inr (''working'', ''assistant'',
           [(''attributes'', VDict [(''requests'', VList (request_of add_block))])]),
      s + 1, h))"

definition new_bot :: "nat bot" where
  "new_bot = \<lparr> heap = [create_empty], conversation = Some 0, mstate = 0 \<rparr>"

text \<open>A mailbox whose send fails with a fatal error and leaves the tree alone, and a bot
  on the example tree.\<close>

definition failing_send :: "nat send_message" where
  "failing_send = (\<lambda>s h c. (Inl (OtherError ''fatal''), s + 1, h))"

definition ex_bot :: "nat bot" where
  "ex_bot = \<lparr> heap = ex_heap, conversation = Some 2, mstate = 0 \<rparr>"

definition ex_heap_turn :: heap where
  "ex_heap_turn =
     [\<lparr> role = VStr ''user'', content = VStr ''hello'', attrs = [], replies = [1, 2], parent = None \<rparr>,
      \<lparr> role = VStr ''assistant'', content = VStr ''hi there'', attrs = [], replies = [], parent = Some 0 \<rparr>,
      \<lparr> role = VStr ''assistant'', content = VStr ''hey'', attrs = [], replies = [3], parent = Some 0 \<rparr>,
      \<lparr> role = VStr ''user'', content = VStr ''and now?'', attrs = [], replies = [], parent = Some 2 \<rparr>]"

text \<open>A mailbox whose send returns a reply with one extra attribute and leaves the tree
  alone, and the trees of a first turn: after the turn is added, and after the reply.\<close>

definition replying_send :: "nat send_message" where
  "replying_send = (\<lambda>s h c. (Inr (''hi'', ''assistant'', [(''tokens'', VInt 3)]), s + 1, h))"

definition first_turn_heap :: heap where
  "first_turn_heap =
     [\<lparr> role = VStr ''user'', content = VStr ''hello'', attrs = [], replies = [], parent = None \<rparr>]"

definition replied_heap :: heap where
  "replied_heap =
     [\<lparr> role = VStr ''user'', content = VStr ''hello'', attrs = [], replies = [1], parent = None \<rparr>,
      \<lparr> role = VStr ''assistant'', content = VStr ''hi'', attrs = [(''tokens'', VInt 3)],
        replies = [], parent = Some 0 \<rparr>]"

section \<open>Serialising the tree (src/src/base.py)\<close>

text \<open>\<open>find_root\<close>: \<open>while current.parent is not None: current = current.parent\<close>.\<close>

partial_function (option) find_root :: "heap \<Rightarrow> addr \<Rightarrow> addr option" where
  "find_root h current =
     (case parent (h ! current) of None \<Rightarrow> Some current | Some p \<Rightarrow> find_root h p)"

fun callable :: "val \<Rightarrow> bool" where
  "callable (VCallable f) = True"
| "callable v = False"

text \<open>\<open>k.startswith('_')\<close>\<close>

fun startswith_underscore :: "string \<Rightarrow> bool" where
  "startswith_underscore [] = False"
| "startswith_underscore (c # cs) = (c = CHR ''_'')"

definition public :: "string \<times> val \<Rightarrow> bool" where
  "public kv = (\<not> startswith_underscore (fst kv) \<and> \<not> callable (snd kv))"

text \<open>
  \<open>_to_dict_self\<close>: the attributes of the node that \<open>dir(self)\<close> lists, in its sorted
  order, but for \<open>parent\<close> and \<open>replies\<close>, the names that start with an underscore and
  the callables (the methods of the class among them).
\<close>

definition to_dict_self :: "node \<Rightarrow> (string \<times> val) list" where
  "to_dict_self n =
     sort_key fst (filter public ((''content'', content n) # (''role'', role n) # attrs n))"

text \<open>
  \<open>_to_dict_recursive\<close>. The recursion follows \<open>replies\<close> references and need not end
  on every heap; the first argument bounds its depth, and \<open>None\<close> is a recursion that
  goes deeper.
\<close>

fun to_dict_recursive :: "nat \<Rightarrow> heap \<Rightarrow> addr \<Rightarrow> val option" where
  "to_dict_recursive 0 h a = None"
| "to_dict_recursive (Suc fuel) h a =
     (if replies (h ! a) = [] then Some (VDict (to_dict_self (h ! a)))
      else
        (case those (map (to_dict_recursive fuel h) (replies (h ! a))) of
           None \<Rightarrow> None
         | Some ds \<Rightarrow> Some (VDict (to_dict_self (h ! a) @ [(''replies'', VList ds)]))))"

definition root_dict :: "nat \<Rightarrow> heap \<Rightarrow> addr \<Rightarrow> val option" where
  "root_dict fuel h a =
     (case find_root h a of None \<Rightarrow> None | Some root \<Rightarrow> to_dict_recursive fuel h root)"

text \<open>A value stored in a dictionary is smaller than the dictionary (used for the
  termination of \<open>from_dict\<close>).\<close>

lemma size_map_of: "map_of kvs k = Some v \<Longrightarrow> size v < size_list (size_prod (\<lambda>x. 0) size) kvs"
  by (induction kvs) (auto split: if_splits)

text \<open>
  \<open>from_dict\<close>, with its loop over \<open>data.get('replies', [])\<close>. \<open>data.items()\<close> needs a
  dictionary. A value under \<open>replies\<close> that is not a list is iterated all the same: a
  string or a dictionary yields strings, on which the recursive call fails at once, and
  the other values cannot be iterated.
\<close>

function from_dict :: "val \<Rightarrow> heap \<Rightarrow> error + (heap \<times> addr)"
  and from_dict_replies :: "val list \<Rightarrow> addr \<Rightarrow> heap \<Rightarrow> error + heap" where
  "from_dict data h =
     (case data of
        VDict kvs \<Rightarrow>
          (case init_node [] (filter (\<lambda>(k, v). k \<noteq> ''replies'') kvs) of
             Inl e \<Rightarrow> Inl e
           | Inr n \<Rightarrow>
               (case map_of kvs ''replies'' of
                  None \<Rightarrow> Inr (h @ [n], length h)
                | Some (VList ds) \<Rightarrow>
                    (case from_dict_replies ds (length h) (h @ [n]) of
                       Inl e \<Rightarrow> Inl e
                     | Inr h2 \<Rightarrow> Inr (h2, length h))
                | Some (VStr s) \<Rightarrow> if s = [] then Inr (h @ [n], length h) else Inl AttributeError
                | Some (VDict kv) \<Rightarrow> if kv = [] then Inr (h @ [n], length h) else Inl AttributeError
                | Some _ \<Rightarrow> Inl TypeError))
      | _ \<Rightarrow> Inl AttributeError)"
| "from_dict_replies [] node h = Inr h"
| "from_dict_replies (reply_data # rest) node h =
     (case from_dict reply_data h of
        Inl e \<Rightarrow> Inl e
      | Inr (h1, reply_node) \<Rightarrow>
          from_dict_replies rest node
            (h1[reply_node := (h1 ! reply_node)\<lparr>parent := Some node\<rparr>,
                node := (h1 ! node)\<lparr>replies := replies (h1 ! node) @ [reply_node]\<rparr>]))"
  by pat_completeness auto

termination
  apply (relation "measure (\<lambda>x. case x of Inl (d, h) \<Rightarrow> 2 * size d + 2
                                          | Inr (ds, a, h) \<Rightarrow> 2 * size_list size ds + 1)")
     apply simp
    apply (auto dest!: size_map_of)
  done

text \<open>
  A conversation tree as a value: role, content, extra attributes and the subtrees of the
  replies, in order. \<open>repr h p a t\<close>: the node at address \<open>a\<close> of the heap, with parent
  reference \<open>p\<close>, is the root of the tree \<open>t\<close>: its fields are those of \<open>t\<close>, its
  replies are the roots of the subtrees of \<open>t\<close>, in order, and each of them refers back to
  \<open>a\<close> as its parent. A reply is an object created after its parent, so its address
  is larger.
\<close>

datatype tree = Tree val val "(string \<times> val) list" "tree list"

fun repr :: "heap \<Rightarrow> addr option \<Rightarrow> addr \<Rightarrow> tree \<Rightarrow> bool"
  and repr_list :: "heap \<Rightarrow> addr \<Rightarrow> addr list \<Rightarrow> tree list \<Rightarrow> bool" where
  "repr h p a (Tree r c al ts) =
     (a < length h \<and> role (h ! a) = r \<and> content (h ! a) = c \<and> attrs (h ! a) = al \<and>
      parent (h ! a) = p \<and> repr_list h a (replies (h ! a)) ts)"
| "repr_list h a [] [] = True"
| "repr_list h a (b # bs) (t # ts) = (a < b \<and> repr h (Some a) b t \<and> repr_list h a bs ts)"
| "repr_list h a [] (t # ts) = False"
| "repr_list h a (b # bs) [] = False"

fun height :: "tree \<Rightarrow> nat" where
  "height (Tree r c al ts) = Suc (foldr max (map height ts) 0)"

text \<open>The portable form of a tree, and the tree that \<open>from_dict\<close> builds from it: the
  same but for the extra attributes, of which the public ones remain, in sorted order.\<close>

fun dict_of :: "tree \<Rightarrow> val" where
  "dict_of (Tree r c al ts) =
     VDict (sort_key fst (filter public ((''content'', c) # (''role'', r) # al)) @
            (if ts = [] then [] else [(''replies'', VList (map dict_of ts))]))"

fun rebuilt :: "tree \<Rightarrow> tree" where
  "rebuilt (Tree r c al ts) = Tree r c (sort_key fst (filter public al)) (map rebuilt ts)"

text \<open>
  The trees of plain data: role and content are not callables, and the extra attributes
  have distinct names, none of them \<open>content\<close>, \<open>role\<close>, \<open>replies\<close> or \<open>parent\<close>
  (which \<open>__init__\<close> takes or overwrites), and all of them ordinary (none is \<open>self\<close>,
  the name of a method or a name with two leading underscores).
\<close>

fun wf_tree :: "tree \<Rightarrow> bool" where
  "wf_tree (Tree r c al ts) =
     (\<not> callable r \<and> \<not> callable c \<and> distinct (map fst al) \<and>
      list_all (\<lambda>k. k \<notin> {''content'', ''role'', ''replies'', ''parent''}) (map fst al) \<and>
      list_all ordinary_name (map fst al) \<and>
      list_all wf_tree ts)"

text \<open>
  The tree without its attributes that are not public, and the comparison of two trees
  as data: the same shape, roles and contents, and the same value for every attribute
  name.
\<close>

fun public_only :: "tree \<Rightarrow> tree" where
  "public_only (Tree r c al ts) = Tree r c (filter public al) (map public_only ts)"

fun same_data :: "tree \<Rightarrow> tree \<Rightarrow> bool"
  and same_data_list :: "tree list \<Rightarrow> tree list \<Rightarrow> bool" where
  "same_data (Tree r c al ts) (Tree r' c' al' ts') =
     (r = r' \<and> c = c' \<and> map_of al = map_of al' \<and> same_data_list ts ts')"
| "same_data_list [] [] = True"
| "same_data_list (t # ts) (t' # ts') = (same_data t t' \<and> same_data_list ts ts')"
| "same_data_list [] (t' # ts') = False"
| "same_data_list (t # ts) [] = False"

text \<open>A branching tree with a private attribute and a callable among its attributes, the
  tree value it holds, and a one-node tree with a private attribute, for the examples.\<close>

definition rt_heap :: heap where
  "rt_heap =
     [\<lparr> role = VStr ''user'', content = VStr ''hello'',
        attrs = [(''tokens'', VInt 3), (''_raw'', VStr ''x''), (''hook'', VCallable ''f'')],
        replies = [1, 2], parent = None \<rparr>,
      \<lparr> role = VStr ''assistant'', content = VStr ''hi there'', attrs = [], replies = [], parent = Some 0 \<rparr>,
      \<lparr> role = VStr ''assistant'', content = VList [text_seg ''hey''],
        attrs = [(''stop'', VStr ''end_turn'')], replies = [], parent = Some 0 \<rparr>]"

definition rt_tree :: tree where
  "rt_tree =
     Tree (VStr ''user'') (VStr ''hello'')
       [(''tokens'', VInt 3), (''_raw'', VStr ''x''), (''hook'', VCallable ''f'')]
       [Tree (VStr ''assistant'') (VStr ''hi there'') [] [],
        Tree (VStr ''assistant'') (VList [text_seg ''hey'']) [(''stop'', VStr ''end_turn'')] []]"

definition note_heap :: heap where
  "note_heap =
     [\<lparr> role = VStr ''user'', content = VStr ''hello'', attrs = [(''_note'', VStr ''draft'')],
        replies = [], parent = None \<rparr>]"

section \<open>Saving a bot (src/src/base.py)\<close>

text \<open>
  The values of the attributes of a Bot: plain data, the model engine (an enum member,
  with its value), the current node, the tool handler, the mailbox, or some other
  object. The bot is its \<open>__dict__\<close>.
\<close>

datatype 'h obj =
    Val val
  | Engine string
  | Node addr
  | HandlerObj 'h
  | MailboxObj
  | Opaque string

text \<open>
  The last loop of \<open>save\<close>: a value that is not a string, a number, a list, a dictionary
  or \<open>None\<close> is replaced by its \<open>str()\<close>, which the parameter \<open>str_of\<close> gives.
\<close>

definition stringify :: "('h obj \<Rightarrow> string) \<Rightarrow> 'h obj \<Rightarrow> val" where
  "stringify str_of x =
     (case x of
        Val v \<Rightarrow> if callable v then VStr (str_of x) else v
      | _ \<Rightarrow> VStr (str_of x))"

text \<open>
  \<open>save\<close>, up to the record that is written to the file. \<open>ToolHandler.to_dict\<close> reads
  source files and is a parameter. \<open>dict.pop\<close> of a missing key is a KeyError;
  \<open>self.model_engine.value\<close>, \<open>self.conversation.root_dict()\<close> and
  \<open>data['tool_handler'].to_dict()\<close> are AttributeErrors on an object of another kind.
  \<open>None\<close>: \<open>root_dict\<close> does not return within the depth \<open>fuel\<close>.
\<close>

definition save ::
  "('h \<Rightarrow> error + val) \<Rightarrow> ('h obj \<Rightarrow> string) \<Rightarrow> nat \<Rightarrow> heap \<Rightarrow> string \<Rightarrow>
     (string \<times> 'h obj) list \<Rightarrow> (error + (string \<times> val) list) option" where
  "save to_dict str_of fuel h class_name self_dict =
     (let data0 = filter (\<lambda>(key, value). \<not> startswith_underscore key) self_dict in
      case map_of data0 ''api_key'' of
        None \<Rightarrow> Some (Inl KeyError)
      | Some k \<Rightarrow>
     (let data1 = AList.delete ''api_key'' data0 in
      case map_of data1 ''mailbox'' of
        None \<Rightarrow> Some (Inl KeyError)
      | Some m \<Rightarrow>
     (let data2 = AList.delete ''mailbox'' data1;
          data3 = AList.update ''bot_class'' (Val (VStr class_name)) data2 in
      case map_of self_dict ''model_engine'' of
        Some (Engine s) \<Rightarrow>
          (let data4 = AList.update ''model_engine'' (Val (VStr s)) data3 in
           case map_of self_dict ''conversation'' of
             Some (Node a) \<Rightarrow>
               (case root_dict fuel h a of
                  None \<Rightarrow> None
                | Some d \<Rightarrow>
                    (let data5 = AList.update ''conversation'' (Val d) data4 in
                     case (case map_of data5 ''tool_handler'' of
                             None \<Rightarrow> Inr data5
                           | Some (HandlerObj th) \<Rightarrow>
                               (case to_dict th of
                                  Inl e \<Rightarrow> Inl e
                                | Inr v \<Rightarrow> Inr (AList.update ''tool_handler'' (Val v) data5))
                           | Some _ \<Rightarrow> Inl AttributeError) of
                       Inl e \<Rightarrow> Some (Inl e)
                     | Inr data6 \<Rightarrow> Some (Inr (map (\<lambda>(key, value). (key, stringify str_of value)) data6))))
           | _ \<Rightarrow> Some (Inl AttributeError))
      | _ \<Rightarrow> Some (Inl AttributeError))))"

text \<open>A bot, for the examples.\<close>

definition ex_self :: "(string \<times> unit obj) list" where
  "ex_self =
     [(''api_key'', Val (VStr ''sk-secret'')), (''name'', Val (VStr ''Claude'')),
      (''model_engine'', Engine ''claude-3-5-sonnet-20240620''), (''max_tokens'', Val (VInt 4096)),
      (''temperature'', Val (VStr ''0.3'')), (''role'', Val (VStr ''assistant'')),
      (''role_description'', Val (VStr ''a friendly AI assistant'')),
      (''conversation'', Node 2), (''system_message'', Val (VStr '''')),
      (''tool_handler'', HandlerObj ()), (''mailbox'', MailboxObj)]"

text \<open>What the handler of the example bot serialises to, the \<open>str()\<close> of its objects, and
  the record expected for it.\<close>

definition ex_to_dict :: "unit \<Rightarrow> error + val" where
  "ex_to_dict th = Inr (VDict [(''class'', VStr ''AnthropicToolHandler''), (''tools'', VList []),
     (''function_map'', VDict []), (''requests'', VList []), (''results'', VList [])])"

definition ex_str_of :: "unit obj \<Rightarrow> string" where
  "ex_str_of x = ''<object>''"

definition ex_record :: "(string \<times> val) list" where
  "ex_record =
     [(''name'', VStr ''Claude''),
      (''model_engine'', VStr ''claude-3-5-sonnet-20240620''),
      (''max_tokens'', VInt 4096), (''temperature'', VStr ''0.3''),
      (''role'', VStr ''assistant''),
      (''role_description'', VStr ''a friendly AI assistant''),
      (''conversation'',
       VDict [(''content'', VStr ''hello''), (''role'', VStr ''user''),
              (''replies'',
               VList [VDict [(''content'', VStr ''hi there''), (''role'', VStr ''assistant'')],
                      VDict [(''content'', VStr ''hey''), (''role'', VStr ''assistant'')]])]),
      (''system_message'', VStr []),
      (''tool_handler'',
       VDict [(''class'', VStr ''AnthropicToolHandler''), (''tools'', VList []),
              (''function_map'', VDict []), (''requests'', VList []), (''results'', VList [])]),
      (''bot_class'', VStr ''AnthropicBot'')]"

section \<open>Properties\<close>

subsection \<open>The tree invariant of non-sentinel call sequences\<close>

lemmas ordinary_defs = ordinary_kwargs_def ordinary_name_def method_names_def dunder_def

lemma init_node_fields:
  "init_node old kw = Inr n \<Longrightarrow>
     map_of kw ''role'' = Some (role n) \<and> map_of kw ''content'' = Some (content n) \<and>
     replies n = [] \<and> parent n = None"
  by (auto simp: init_node_def split: option.splits if_splits)

lemma init_node_ordinary:
  "init_node old kw = Inr n \<Longrightarrow> ordinary_kwargs kw"
  by (auto simp: init_node_def split: option.splits if_splits)

lemma init_node_not_sentinel:
  "init_node old kw = Inr n \<Longrightarrow> \<not> sentinel_kwargs kw \<Longrightarrow> \<not> is_empty n"
  by (auto simp: sentinel_kwargs_def is_empty_def dest!: init_node_fields)

lemma add_reply_child:
  assumes "\<not> is_empty (h ! t)" and "add_reply h t kw = Inr (h', c)"
  obtains n where "init_node [] kw = Inr n" and "c = length h"
    and "h' = (h @ [n\<lparr>parent := Some t\<rparr>])[t := (h ! t)\<lparr>replies := replies (h ! t) @ [length h]\<rparr>]"
  using assms by (auto simp: add_reply_def split: sum.splits)

lemma tree_inv_add_reply:
  assumes inv: "tree_inv h" and t: "t < length h" and ns: "\<not> sentinel_kwargs kw"
    and ar: "add_reply h t kw = Inr (h', c)"
  shows "tree_inv h' \<and> c < length h'"
proof -
  from inv t have ne: "\<not> is_empty (h ! t)" by (simp add: tree_inv_def)
  from add_reply_child[OF ne ar] obtain n where n: "init_node [] kw = Inr n" and c: "c = length h"
    and h': "h' = (h @ [n\<lparr>parent := Some t\<rparr>])[t := (h ! t)\<lparr>replies := replies (h ! t) @ [length h]\<rparr>]"
    by blast
  have len: "length h' = Suc (length h)" by (simp add: h')
  have old: "\<And>a. a < length h \<Longrightarrow> parent (h' ! a) = parent (h ! a) \<and>
       role (h' ! a) = role (h ! a) \<and> content (h' ! a) = content (h ! a) \<and>
       set (replies (h ! a)) \<subseteq> set (replies (h' ! a))"
    using t by (auto simp: h' nth_list_update nth_append)
  have new: "h' ! length h = n\<lparr>parent := Some t\<rparr>"
    using t by (simp add: h' nth_list_update nth_append)
  have tnew: "length h \<in> set (replies (h' ! t))"
    using t by (simp add: h' nth_list_update nth_append)
  have nn: "\<not> is_empty n" using init_node_not_sentinel[OF n ns] .
  have 1: "parent (h' ! 0) = None" using inv old[of 0] by (simp add: tree_inv_def)
  have 2: "\<forall>a < length h'. \<not> is_empty (h' ! a)"
  proof (intro allI impI)
    fix a assume "a < length h'"
    then consider "a < length h" | "a = length h" using len by linarith
    then show "\<not> is_empty (h' ! a)"
    proof cases
      case 1 then show ?thesis using inv old[of a] by (simp add: tree_inv_def is_empty_def)
    next
      case 2 then show ?thesis using nn new by (simp add: is_empty_def)
    qed
  qed
  have 3: "\<forall>a < length h'. 0 < a \<longrightarrow> (\<exists>q < a. parent (h' ! a) = Some q \<and> a \<in> set (replies (h' ! q)))"
  proof (intro allI impI)
    fix a assume a: "a < length h'" and pos: "0 < a"
    then consider "a < length h" | "a = length h" using len by linarith
    then show "\<exists>q < a. parent (h' ! a) = Some q \<and> a \<in> set (replies (h' ! q))"
    proof cases
      case 1
      with inv pos obtain q where q: "q < a" "parent (h ! a) = Some q" "a \<in> set (replies (h ! q))"
        by (auto simp: tree_inv_def)
      with 1 old[of a] old[of q] show ?thesis by auto
    next
      case 2
      then show ?thesis using new tnew t by auto
    qed
  qed
  show ?thesis using 1 2 3 len c by (simp add: tree_inv_def)
qed

lemma first_call:
  assumes ns: "\<not> sentinel_kwargs kw" and ar: "add_reply [create_empty] 0 kw = Inr (h', c)"
  shows "tree_inv h' \<and> c < length h'"
proof -
  from ar obtain n where n: "init_node [] kw = Inr n" and h': "h' = [n]" and c: "c = 0"
    by (auto simp: add_reply_def is_empty_def create_empty_def split: sum.splits)
  from init_node_not_sentinel[OF n ns] init_node_fields[OF n] show ?thesis
    by (simp add: tree_inv_def h' c)
qed

lemma replay_inv:
  "tree_inv h \<Longrightarrow> c < length h \<Longrightarrow> \<forall>(t, kw) \<in> set cs. \<not> sentinel_kwargs kw \<Longrightarrow>
   replay cs (h, c) = Inr (h', c') \<Longrightarrow> tree_inv h' \<and> c' < length h'"
proof (induction cs arbitrary: h c)
  case Nil
  then show ?case by simp
next
  case (Cons x cs)
  obtain t kw where x: "x = (t, kw)" by (cases x)
  from Cons.prems(4) x have t: "t < length h" by (auto split: if_splits)
  with Cons.prems(4) x obtain h1 c1 where ar: "add_reply h t kw = Inr (h1, c1)"
    and rest: "replay cs (h1, c1) = Inr (h', c')"
    by (auto split: sum.splits)
  from Cons.prems(3) x have ns: "\<not> sentinel_kwargs kw" by simp
  from tree_inv_add_reply[OF Cons.prems(1) t ns ar] have "tree_inv h1" "c1 < length h1" by simp_all
  from Cons.IH[OF this _ rest] Cons.prems(3) show ?case by simp
qed

lemma is_path_snoc:
  "is_path h p \<Longrightarrow> a \<in> set (replies (h ! last p)) \<Longrightarrow> is_path h (p @ [a])"
  by (induction h p rule: is_path.induct) auto

lemma walk_path:
  assumes inv: "tree_inv h"
  shows "a < length h \<Longrightarrow>
    \<exists>p. hd p = 0 \<and> last p = a \<and> is_path h p \<and>
        (\<forall>acc. walk h (Some a) acc = Some (map (\<lambda>b. entry (h ! b)) p @ acc))"
proof (induction a rule: less_induct)
  case (less a)
  show ?case
  proof (cases "a = 0")
    case True
    have "\<forall>acc. walk h (Some 0) acc = Some (map (\<lambda>b. entry (h ! b)) [0] @ acc)"
      using inv by (simp add: walk.simps[of h "Some 0"] walk.simps[of h None] tree_inv_def)
    then show ?thesis using True by (intro exI[of _ "[0]"]) simp
  next
    case False
    with inv less.prems obtain q where q: "q < a" "parent (h ! a) = Some q" "a \<in> set (replies (h ! q))"
      by (auto simp: tree_inv_def)
    from less.IH[OF q(1)] q(1) less.prems obtain p where p: "hd p = 0" "last p = q" "is_path h p"
      "\<forall>acc. walk h (Some q) acc = Some (map (\<lambda>b. entry (h ! b)) p @ acc)" by auto
    from p(3) have pne: "p \<noteq> []" by auto
    have "\<forall>acc. walk h (Some a) acc = Some (map (\<lambda>b. entry (h ! b)) (p @ [a]) @ acc)"
      using p(4) q(2) by (simp add: walk.simps[of h "Some a"])
    moreover have "is_path h (p @ [a])" using is_path_snoc p q by simp
    ultimately show ?thesis using p(1) pne by (intro exI[of _ "p @ [a]"]) simp
  qed
qed

subsection \<open>Linearising the current node\<close>

text \<open>
  Claim C1, as amended. \<open>build_messages\<close> on the sentinel empty root returns the empty
  sequence. After any non-empty sequence of \<open>add_reply\<close> calls that starts from the
  sentinel, each on an existing node, none of which passes \<open>role = "empty"\<close> together
  with \<open>content = ""\<close>, and all of whose keywords are ordinary names (not \<open>self\<close>, not
  the name of a method of the node, not a name with two leading underscores),
  \<open>build_messages\<close> on the current node returns: it yields the
  \<open>{role, content}\<close> entries of the nodes on the path \<open>p\<close> that leads from the root
  (node 0, which has no parent) through \<open>replies\<close> links to the current node, root first,
  and their number is the depth of the node (\<open>length p - 1\<close> links) plus one.
\<close>

theorem linearize_returns_path:
  "build_messages [create_empty] 0 = Some [] \<and>
   (replay cs ([create_empty], 0) = Inr (h, c) \<and> cs \<noteq> [] \<and>
    (\<forall>(t, kw) \<in> set cs. \<not> sentinel_kwargs kw \<and> ordinary_kwargs kw) \<longrightarrow>
      (\<exists>p msgs. hd p = 0 \<and> parent (h ! 0) = None \<and> last p = c \<and> is_path h p \<and>
         build_messages h c = Some msgs \<and> msgs = map (\<lambda>b. entry (h ! b)) p \<and>
         length msgs = (length p - 1) + 1))"
proof (intro conjI impI)
  show "build_messages [create_empty] 0 = Some []"
    by (simp add: build_messages_def is_empty_def create_empty_def)
next
  assume a: "replay cs ([create_empty], 0) = Inr (h, c) \<and> cs \<noteq> [] \<and>
    (\<forall>(t, kw) \<in> set cs. \<not> sentinel_kwargs kw \<and> ordinary_kwargs kw)"
  then obtain t kw cs' where cs: "cs = (t, kw) # cs'" by (cases cs) auto
  from a cs have t: "t = 0" by (auto split: if_splits)
  from a cs t obtain h1 c1 where ar: "add_reply [create_empty] 0 kw = Inr (h1, c1)"
    and rest: "replay cs' (h1, c1) = Inr (h, c)"
    by (auto split: sum.splits)
  from a cs have ns: "\<not> sentinel_kwargs kw" and nss: "\<forall>(t, kw) \<in> set cs'. \<not> sentinel_kwargs kw"
    by auto
  from first_call[OF ns ar] have "tree_inv h1" "c1 < length h1" by simp_all
  from replay_inv[OF this nss rest] have inv: "tree_inv h" and c: "c < length h" by simp_all
  from walk_path[OF inv c] obtain p where p: "hd p = 0" "last p = c" "is_path h p"
    "\<forall>acc. walk h (Some c) acc = Some (map (\<lambda>b. entry (h ! b)) p @ acc)" by blast
  from p(3) have pne: "p \<noteq> []" by auto
  have "build_messages h c = Some (map (\<lambda>b. entry (h ! b)) p)"
    using inv c p(4) by (simp add: build_messages_def tree_inv_def)
  moreover have "parent (h ! 0) = None" using inv by (simp add: tree_inv_def)
  ultimately show "\<exists>p msgs. hd p = 0 \<and> parent (h ! 0) = None \<and> last p = c \<and> is_path h p \<and>
         build_messages h c = Some msgs \<and> msgs = map (\<lambda>b. entry (h ! b)) p \<and>
         length msgs = (length p - 1) + 1"
    using p(1,2,3) pne by (intro exI[of _ p]) simp
qed

lemma ex_replay: "replay ex_calls ([create_empty], 0) = Inr (ex_heap, 2)"
  by (simp add: ex_calls_def ex_heap_def add_reply_def init_node_def ordinary_defs is_empty_def create_empty_def
      AList.delete_eq)

theorem linearize_returns_path_witness:
  "replay ex_calls ([create_empty], 0) = Inr (ex_heap, 2) \<and> ex_calls \<noteq> [] \<and>
   list_all (\<lambda>(t, kw). \<not> sentinel_kwargs kw \<and> ordinary_kwargs kw) ex_calls \<and>
   (\<exists>p msgs. hd p = 0 \<and> parent (ex_heap ! 0) = None \<and> last p = 2 \<and> is_path ex_heap p \<and>
         build_messages ex_heap 2 = Some msgs \<and> msgs = map (\<lambda>b. entry (ex_heap ! b)) p \<and>
         length msgs = (length p - 1) + 1)"
proof -
  have 1: "ex_calls \<noteq> []" by (simp add: ex_calls_def)
  have 2: "\<forall>(t, kw) \<in> set ex_calls. \<not> sentinel_kwargs kw \<and> ordinary_kwargs kw"
    by (simp add: ex_calls_def sentinel_kwargs_def ordinary_defs)
  have 3: "list_all (\<lambda>(t, kw). \<not> sentinel_kwargs kw \<and> ordinary_kwargs kw) ex_calls"
    using 2 by (simp add: list_all_iff)
  show ?thesis
    using linearize_returns_path[of ex_calls ex_heap 2] ex_replay 1 2 3 by blast
qed

lemma cex_replay: "replay cex_calls ([create_empty], 0) = Inr (cex_heap, 1)"
  by (simp add: cex_calls_def cex_heap_def add_reply_def init_node_def ordinary_defs is_empty_def create_empty_def
      AList.delete_eq)

text \<open>
  Claim C1 as stated fails when a call passes the sentinel's values: after
  \<open>add_reply(content="hello", role="user")\<close> and \<open>add_reply(content="", role="empty")\<close>
  the current node has depth 1, yet \<open>build_messages\<close> returns the empty sequence and not
  the two entries of its path.
\<close>

theorem linearize_mid_tree_sentinel_counterexample:
  "replay cex_calls ([create_empty], 0) = Inr (cex_heap, 1) \<and>
   parent (cex_heap ! 1) = Some 0 \<and> parent (cex_heap ! 0) = None \<and> is_path cex_heap [0, 1] \<and>
   build_messages cex_heap 1 = Some [] \<and>
   build_messages cex_heap 1 \<noteq> Some [entry (cex_heap ! 0), entry (cex_heap ! 1)]"
  using cex_replay by (simp add: cex_heap_def build_messages_def is_empty_def)

subsection \<open>The sentinel is recognised by its values\<close>



subsection \<open>Facts about strip and the merge\<close>

lemma dropWhile_filter_not: "filter (\<lambda>c. \<not> P c) (dropWhile P xs) = filter (\<lambda>c. \<not> P c) xs"
  by (induction xs) auto

lemma strip_filter: "filter (\<lambda>c. \<not> isspace c) (strip s) = filter (\<lambda>c. \<not> isspace c) s"
proof -
  have "filter (\<lambda>c. \<not> isspace c) (strip s)
        = rev (filter (\<lambda>c. \<not> isspace c) (dropWhile isspace (rev (dropWhile isspace s))))"
    by (simp add: strip_def rev_filter)
  also have "\<dots> = rev (filter (\<lambda>c. \<not> isspace c) (rev (dropWhile isspace s)))"
    by (simp only: dropWhile_filter_not)
  also have "\<dots> = filter (\<lambda>c. \<not> isspace c) (dropWhile isspace s)"
    by (simp add: rev_filter)
  finally show ?thesis by (simp only: dropWhile_filter_not)
qed

lemma subseq_dropWhile: "subseq (dropWhile P xs) xs"
  using suffix_dropWhile suffix_imp_subseq by blast

lemma subseq_rev_dropWhile_rev: "subseq (rev (dropWhile P (rev ys))) ys"
proof (induction ys rule: rev_induct)
  case Nil
  then show ?case by simp
next
  case (snoc z zs)
  then show ?case by (simp add: subseq_rev_drop_many)
qed

lemma strip_subseq: "subseq (strip s) s"
proof -
  have "subseq (strip s) (dropWhile isspace s)"
    unfolding strip_def by (rule subseq_rev_dropWhile_rev)
  then show ?thesis using subseq_dropWhile subseq_order.trans by blast
qed

lemma text_seg_props [simp]:
  "is_text_seg (text_seg s)" "seg_text (text_seg s) = s" "wf_seg (text_seg s)"
  by (simp_all add: is_text_seg_def seg_text_def text_seg_def wf_seg_def)

lemma merged_ok:
  assumes "subseq t u"
    and "filter (\<lambda>c. \<not> isspace c) t = filter (\<lambda>c. \<not> isspace c) u"
  shows "subseq (a @ t @ b) (a @ u @ b) \<and>
     filter (\<lambda>c. \<not> isspace c) (a @ t @ b) = filter (\<lambda>c. \<not> isspace c) (a @ u @ b)"
  using assms by (simp add: list_emb_append_mono)

lemma strip_merged:
  "subseq (a @ strip u @ b) (a @ u @ b) \<and>
   filter (\<lambda>c. \<not> isspace c) (a @ strip u @ b) = filter (\<lambda>c. \<not> isspace c) (a @ u @ b)"
  by (rule merged_ok[OF strip_subseq strip_filter])

lemma merge_str_str:
  assumes "merge_content (VStr e) (VStr n) = Inr r"
  shows "subseq (all_text r) (e @ n) \<and>
     filter (\<lambda>c. \<not> isspace c) (all_text r) = filter (\<lambda>c. \<not> isspace c) (e @ n) \<and> non_text r = []"
  using assms strip_merged[of "[]" "e @ n" "[]"] by auto

lemma merge_str_list:
  assumes "merge_content (VStr e) (VList n) = Inr r"
  shows "subseq (all_text r) (e @ all_text (VList n)) \<and>
     filter (\<lambda>c. \<not> isspace c) (all_text r) = filter (\<lambda>c. \<not> isspace c) (e @ all_text (VList n)) \<and>
     non_text r = non_text (VList n)"
proof (cases n)
  case Nil
  with assms show ?thesis using strip_merged[of "[]" e "[]"] by auto
next
  case (Cons x rest)
  show ?thesis
  proof (cases "is_text_seg x")
    case True
    with assms Cons obtain s where s: "getitem x ''text'' = Inr (VStr s)"
      and r: "r = VList (text_seg (strip (e @ s)) # rest)"
      by (auto simp: is_text_seg_def split: sum.splits val.splits)
    have "seg_text x = s" using True s by (simp add: seg_text_def)
    then show ?thesis
      using strip_merged[of "[]" "e @ s" "concat (map seg_text rest)"] True Cons r by simp
  next
    case False
    with assms Cons have r: "r = VList (text_seg (strip e) # n)"
      by (auto simp: is_text_seg_def split: sum.splits if_splits)
    then show ?thesis
      using strip_merged[of "[]" e "concat (map seg_text n)"] by simp
  qed
qed

lemma all_text_butlast:
  "e \<noteq> [] \<Longrightarrow> concat (map seg_text e) = concat (map seg_text (butlast e)) @ seg_text (last e)"
  by (induction e) auto

lemma non_text_butlast:
  "e \<noteq> [] \<Longrightarrow> filter P e = filter P (butlast e) @ (if P (last e) then [last e] else [])"
  by (induction e) auto

lemma merge_list_str:
  assumes "merge_content (VList e) (VStr n) = Inr r"
  shows "subseq (all_text r) (all_text (VList e) @ n) \<and>
     filter (\<lambda>c. \<not> isspace c) (all_text r) = filter (\<lambda>c. \<not> isspace c) (all_text (VList e) @ n) \<and>
     non_text r = non_text (VList e)"
proof (cases "e = []")
  case True
  with assms show ?thesis using strip_merged[of "[]" n "[]"] by auto
next
  case ne: False
  show ?thesis
  proof (cases "is_text_seg (last e)")
    case True
    with assms ne obtain s kvs where s: "getitem (last e) ''text'' = Inr (VStr s)"
      and l: "last e = VDict kvs"
      and r: "r = VList (butlast e @ [VDict (AList.update ''text'' (VStr (strip (s @ n))) kvs)])"
      by (auto simp: is_text_seg_def split: sum.splits val.splits)
    let ?x = "VDict (AList.update ''text'' (VStr (strip (s @ n))) kvs)"
    have t: "is_text_seg ?x" using True l
      by (auto simp: is_text_seg_def AList.update_conv' split: option.splits)
    have st: "seg_text ?x = strip (s @ n)" using t
      by (simp add: seg_text_def AList.update_conv')
    have sl: "seg_text (last e) = s" using True s by (simp add: seg_text_def)
    have "all_text r = concat (map seg_text (butlast e)) @ strip (s @ n)"
      by (simp add: r st)
    moreover have "all_text (VList e) @ n = concat (map seg_text (butlast e)) @ (s @ n)"
      using all_text_butlast[OF ne] sl by simp
    moreover have "non_text r = non_text (VList e)"
      using non_text_butlast[OF ne, of "\<lambda>x. \<not> is_text_seg x"] True t by (simp add: r)
    ultimately show ?thesis
      using strip_merged[of "concat (map seg_text (butlast e))" "s @ n" "[]"] by simp
  next
    case False
    with assms ne have r: "r = VList (e @ [text_seg (strip n)])"
      by (auto simp: is_text_seg_def split: sum.splits if_splits)
    then show ?thesis
      using strip_merged[of "concat (map seg_text e)" n "[]"] by simp
  qed
qed

lemma merge_total:
  assumes "wf_content e" and "wf_content n"
  shows "\<exists>r. merge_content e n = Inr r"
proof (cases e)
  case (VStr s)
  note e = this
  show ?thesis
  proof (cases n)
    case (VList xs)
    then show ?thesis using e assms(2)
      by (cases xs) (auto simp: wf_seg_def split: sum.splits val.splits if_splits)
  qed (use e assms in auto)
next
  case (VList xs)
  note e = this
  show ?thesis
  proof (cases n)
    case (VStr s)
    show ?thesis
    proof (cases "xs = []")
      case True
      then show ?thesis using e VStr by simp
    next
      case False
      then have "wf_seg (last xs)" using assms(1) e by (simp add: list_all_iff)
      then show ?thesis using e VStr False
        by (cases "last xs") (auto simp: wf_seg_def split: sum.splits val.splits if_splits option.splits)
    qed
  qed (use e assms in auto)
qed (use assms in auto)

lemma merge_value_error:
  "\<not> (is_str e \<or> is_list e) \<or> \<not> (is_str n \<or> is_list n) \<Longrightarrow> merge_content e n = Inl ValueError"
  by (cases e; cases n) auto

lemma strip_ends:
  "\<exists>l t. s = l @ strip s @ t \<and> list_all isspace l \<and> list_all isspace t \<and>
         (strip s = [] \<or> (\<not> isspace (hd (strip s)) \<and> \<not> isspace (last (strip s))))"
proof -
  let ?d = "dropWhile isspace s"
  let ?l = "takeWhile isspace s"
  let ?t = "rev (takeWhile isspace (rev ?d))"
  have d: "?d = strip s @ ?t"
  proof -
    have "rev (takeWhile isspace (rev ?d) @ dropWhile isspace (rev ?d)) = rev (rev ?d)"
      by (simp only: takeWhile_dropWhile_id)
    then have "rev (dropWhile isspace (rev ?d)) @ rev (takeWhile isspace (rev ?d)) = ?d"
      by (simp only: rev_append rev_rev_ident)
    then show ?thesis by (simp only: strip_def)
  qed
  have s: "s = ?l @ strip s @ ?t" using d takeWhile_dropWhile_id[of isspace s] by simp
  have l: "list_all isspace ?l" by (simp add: list_all_iff) (meson set_takeWhileD)
  have t: "list_all isspace ?t" by (simp add: list_all_iff) (meson set_takeWhileD)
  have e: "strip s = [] \<or> (\<not> isspace (hd (strip s)) \<and> \<not> isspace (last (strip s)))"
  proof (cases "strip s = []")
    case True then show ?thesis by simp
  next
    case False
    then have ne: "dropWhile isspace (rev ?d) \<noteq> []" by (simp add: strip_def)
    have "last (strip s) = hd (dropWhile isspace (rev ?d))"
      using ne by (simp add: strip_def last_rev)
    then have 1: "\<not> isspace (last (strip s))" using hd_dropWhile[OF ne] by simp
    have dne: "?d \<noteq> []" by (metis d False append_is_Nil_conv)
    have "hd (strip s) = hd ?d" using d False by (metis hd_append2)
    then have 2: "\<not> isspace (hd (strip s))" using hd_dropWhile[OF dne] by simp
    show ?thesis using 1 2 by simp
  qed
  show ?thesis using s l t e by blast
qed

lemma merge_str_str_text:
  assumes "merge_content (VStr a) (VStr b) = Inr r"
  shows "all_text r = strip (a @ b) \<and> non_text r = []"
  using assms by auto

lemma merge_str_list_text:
  assumes "merge_content (VStr a) (VList ys) = Inr r"
  shows "all_text r =
      (if ys \<noteq> [] \<and> is_text_seg (hd ys)
       then strip (a @ seg_text (hd ys)) @ all_text (VList (tl ys))
       else strip a @ all_text (VList ys)) \<and>
     non_text r = non_text (VList ys)"
proof (cases ys)
  case Nil
  with assms show ?thesis by auto
next
  case (Cons x rest)
  show ?thesis
  proof (cases "is_text_seg x")
    case True
    with assms Cons obtain s where s: "getitem x ''text'' = Inr (VStr s)"
      and r: "r = VList (text_seg (strip (a @ s)) # rest)"
      by (auto simp: is_text_seg_def split: sum.splits val.splits)
    have "seg_text x = s" using True s by (simp add: seg_text_def)
    then show ?thesis using True Cons r by simp
  next
    case False
    with assms Cons have r: "r = VList (text_seg (strip a) # ys)"
      by (auto simp: is_text_seg_def split: sum.splits if_splits)
    then show ?thesis using False Cons by simp
  qed
qed

lemma merge_list_str_text:
  assumes "merge_content (VList xs) (VStr b) = Inr r"
  shows "all_text r =
      (if xs \<noteq> [] \<and> is_text_seg (last xs)
       then all_text (VList (butlast xs)) @ strip (seg_text (last xs) @ b)
       else all_text (VList xs) @ strip b) \<and>
     non_text r = non_text (VList xs)"
proof (cases "xs = []")
  case True
  with assms show ?thesis by auto
next
  case ne: False
  show ?thesis
  proof (cases "is_text_seg (last xs)")
    case True
    with assms ne obtain s kvs where s: "getitem (last xs) ''text'' = Inr (VStr s)"
      and l: "last xs = VDict kvs"
      and r: "r = VList (butlast xs @ [VDict (AList.update ''text'' (VStr (strip (s @ b))) kvs)])"
      by (auto simp: is_text_seg_def split: sum.splits val.splits)
    let ?x = "VDict (AList.update ''text'' (VStr (strip (s @ b))) kvs)"
    have t: "is_text_seg ?x" using True l
      by (auto simp: is_text_seg_def AList.update_conv' split: option.splits)
    have st: "seg_text ?x = strip (s @ b)" using t
      by (simp add: seg_text_def AList.update_conv')
    have sl: "seg_text (last xs) = s" using True s by (simp add: seg_text_def)
    have "all_text r = concat (map seg_text (butlast xs)) @ strip (s @ b)"
      by (simp add: r st)
    moreover have "non_text r = non_text (VList xs)"
      using non_text_butlast[OF ne, of "\<lambda>x. \<not> is_text_seg x"] True t by (simp add: r)
    ultimately show ?thesis using True ne sl by simp
  next
    case False
    with assms ne have r: "r = VList (xs @ [text_seg (strip b)])"
      by (auto simp: is_text_seg_def split: sum.splits if_splits)
    then show ?thesis using False by simp
  qed
qed

subsection \<open>Merging continuation content\<close>

text \<open>
  Claim C3, as amended. \<open>merge_content\<close> returns a merged content for every pair of
  inputs of the recognised shapes, in all four combinations of string and list. For
  {string, string}, {string, list} and {list, string} the merged content holds the text of
  both inputs in order, less only the whitespace that \<open>strip\<close> removes from the two
  ends of the merged text, and every segment that is not text, in order. The merged text
  is the one text that the merge writes: for two strings their concatenation; for a
  string and a list, the string followed by the text of the first segment when that is a
  text segment, and the string alone otherwise; for a list and a string, the text of the
  last segment when that is a text segment, followed by the string, and the string alone
  otherwise. The text of the result is the text before the merged text, the stripped
  merged text and the text after it; \<open>strip s\<close> is \<open>s\<close> without a first and a last
  run of whitespace, and does not begin or end with whitespace, so whitespace inside the
  merged text stays. For {list, list} the result is the new list alone: the existing list
  is discarded. An input that is neither a string nor a list raises ValueError.
\<close>

theorem merge_content_total_lossless_up_to_strip:
  "(wf_content e \<and> wf_content n \<longrightarrow> (\<exists>r. merge_content e n = Inr r)) \<and>
   (merge_content (VStr a) (VStr b) = Inr ra \<longrightarrow>
      is_str ra \<and> all_text ra = strip (a @ b)) \<and>
   (merge_content (VStr a) (VList ys) = Inr rb \<longrightarrow>
      all_text rb =
        (if ys \<noteq> [] \<and> is_text_seg (hd ys)
         then strip (a @ seg_text (hd ys)) @ all_text (VList (tl ys))
         else strip a @ all_text (VList ys)) \<and>
      non_text rb = non_text (VList ys)) \<and>
   (merge_content (VList xs) (VStr b) = Inr rc \<longrightarrow>
      all_text rc =
        (if xs \<noteq> [] \<and> is_text_seg (last xs)
         then all_text (VList (butlast xs)) @ strip (seg_text (last xs) @ b)
         else all_text (VList xs) @ strip b) \<and>
      non_text rc = non_text (VList xs)) \<and>
   (\<exists>l t. s = l @ strip s @ t \<and> list_all isspace l \<and> list_all isspace t \<and>
          (strip s = [] \<or> (\<not> isspace (hd (strip s)) \<and> \<not> isspace (last (strip s))))) \<and>
   (merge_content e n = Inr r \<and> \<not> (is_list e \<and> is_list n) \<longrightarrow>
      subseq (all_text r) (all_text e @ all_text n) \<and>
      filter (\<lambda>c. \<not> isspace c) (all_text r) = filter (\<lambda>c. \<not> isspace c) (all_text e @ all_text n) \<and>
      non_text r = non_text e @ non_text n) \<and>
   merge_content (VList xs') (VList ys') = Inr (VList ys') \<and>
   (\<not> (is_str e' \<or> is_list e') \<or> \<not> (is_str n' \<or> is_list n') \<longrightarrow>
      merge_content e' n' = Inl ValueError)"
proof (intro conjI impI)
  assume "wf_content e \<and> wf_content n"
  then show "\<exists>r. merge_content e n = Inr r" using merge_total by blast
next
  assume "merge_content (VStr a) (VStr b) = Inr ra"
  then show "is_str ra" and "all_text ra = strip (a @ b)" by auto
next
  assume m: "merge_content (VStr a) (VList ys) = Inr rb"
  from merge_str_list_text[OF m]
  show "all_text rb =
        (if ys \<noteq> [] \<and> is_text_seg (hd ys)
         then strip (a @ seg_text (hd ys)) @ all_text (VList (tl ys))
         else strip a @ all_text (VList ys))"
    and "non_text rb = non_text (VList ys)" by simp_all
next
  assume m: "merge_content (VList xs) (VStr b) = Inr rc"
  from merge_list_str_text[OF m]
  show "all_text rc =
        (if xs \<noteq> [] \<and> is_text_seg (last xs)
         then all_text (VList (butlast xs)) @ strip (seg_text (last xs) @ b)
         else all_text (VList xs) @ strip b)"
    and "non_text rc = non_text (VList xs)" by simp_all
next
  show "\<exists>l t. s = l @ strip s @ t \<and> list_all isspace l \<and> list_all isspace t \<and>
          (strip s = [] \<or> (\<not> isspace (hd (strip s)) \<and> \<not> isspace (last (strip s))))"
    by (rule strip_ends)
next
  assume a: "merge_content e n = Inr r \<and> \<not> (is_list e \<and> is_list n)"
  then have ok: "(is_str e \<or> is_list e) \<and> (is_str n \<or> is_list n)"
    using merge_value_error[of e n] by auto
  from a ok consider
      (ss) s t where "e = VStr s" "n = VStr t"
    | (sl) s ys where "e = VStr s" "n = VList ys"
    | (ls) xs t where "e = VList xs" "n = VStr t"
    by (cases e; cases n) auto
  then have "subseq (all_text r) (all_text e @ all_text n) \<and>
      filter (\<lambda>c. \<not> isspace c) (all_text r) = filter (\<lambda>c. \<not> isspace c) (all_text e @ all_text n) \<and>
      non_text r = non_text e @ non_text n"
  proof cases
    case ss
    then show ?thesis using a merge_str_str[of s t r] by simp
  next
    case sl
    then show ?thesis using a merge_str_list[of s ys r] by simp
  next
    case ls
    then show ?thesis using a merge_list_str[of xs t r] by simp
  qed
  then show "subseq (all_text r) (all_text e @ all_text n)"
    and "filter (\<lambda>c. \<not> isspace c) (all_text r) = filter (\<lambda>c. \<not> isspace c) (all_text e @ all_text n)"
    and "non_text r = non_text e @ non_text n"
    by simp_all
next
  show "merge_content (VList xs') (VList ys') = Inr (VList ys')" by simp
next
  assume "\<not> (is_str e' \<or> is_list e') \<or> \<not> (is_str n' \<or> is_list n')"
  then show "merge_content e' n' = Inl ValueError" by (rule merge_value_error)
qed

lemma strip_example: "strip '' a b '' = ''a b''"
  by (simp add: strip_def isspace_def)

lemma merge_example:
  "merge_content (VStr '' see'') (VList [text_seg '' this '', tool_use_seg])
     = Inr (VList [text_seg ''see this'', tool_use_seg])"
  by (simp add: text_seg_def strip_def isspace_def)

lemma merge_example_str:
  "merge_content (VStr ''Hello '') (VStr ''world '') = Inr (VStr ''Hello world'')"
  by (simp add: strip_def isspace_def)

lemma merge_example_list_str:
  "merge_content (VList [tool_use_seg, text_seg ''a '']) (VStr '' b '')
     = Inr (VList [tool_use_seg, text_seg ''a  b''])"
  by (simp add: text_seg_def tool_use_seg_def strip_def isspace_def)

theorem merge_content_total_lossless_up_to_strip_witness:
  "wf_content (VStr '' see'') \<and> wf_content (VList [text_seg '' this '', tool_use_seg]) \<and>
   merge_content (VStr '' see'') (VList [text_seg '' this '', tool_use_seg])
     = Inr (VList [text_seg ''see this'', tool_use_seg]) \<and>
   all_text (VList [text_seg ''see this'', tool_use_seg])
     = strip ('' see'' @ '' this '') @ all_text (VList [tool_use_seg]) \<and>
   merge_content (VStr ''Hello '') (VStr ''world '') = Inr (VStr ''Hello world'') \<and>
   all_text (VStr ''Hello world'') = strip (''Hello '' @ ''world '') \<and>
   merge_content (VList [tool_use_seg, text_seg ''a '']) (VStr '' b '')
     = Inr (VList [tool_use_seg, text_seg ''a  b'']) \<and>
   all_text (VList [tool_use_seg, text_seg ''a  b''])
     = all_text (VList [tool_use_seg]) @ strip (''a '' @ '' b '') \<and>
   \<not> is_list (VStr '' see'') \<and>
   subseq (all_text (VList [text_seg ''see this'', tool_use_seg]))
     (all_text (VStr '' see'') @ all_text (VList [text_seg '' this '', tool_use_seg])) \<and>
   non_text (VList [text_seg ''see this'', tool_use_seg])
     = non_text (VStr '' see'') @ non_text (VList [text_seg '' this '', tool_use_seg]) \<and>
   \<not> is_str VNone \<and> \<not> is_list VNone \<and> merge_content VNone (VStr ''x'') = Inl ValueError"
proof -
  have 1: "wf_content (VStr '' see'') \<and> wf_content (VList [text_seg '' this '', tool_use_seg])"
    by (simp add: wf_seg_def tool_use_seg_def text_seg_def)
  have 2: "\<not> is_list (VStr '' see'')" "\<not> is_str VNone" "\<not> is_list VNone" by simp_all
  have 3: "[text_seg '' this '', tool_use_seg] \<noteq> [] \<and>
      is_text_seg (hd [text_seg '' this '', tool_use_seg]) \<and>
      seg_text (hd [text_seg '' this '', tool_use_seg]) = '' this '' \<and>
      tl [text_seg '' this '', tool_use_seg] = [tool_use_seg]"
    by simp
  have 4: "[tool_use_seg, text_seg ''a ''] \<noteq> [] \<and>
      is_text_seg (last [tool_use_seg, text_seg ''a '']) \<and>
      seg_text (last [tool_use_seg, text_seg ''a '']) = ''a '' \<and>
      butlast [tool_use_seg, text_seg ''a ''] = [tool_use_seg]"
    by simp
  note t = merge_content_total_lossless_up_to_strip[where e = "VStr '' see''"
        and n = "VList [text_seg '' this '', tool_use_seg]"
        and r = "VList [text_seg ''see this'', tool_use_seg]"
        and a = "'' see''" and ys = "[text_seg '' this '', tool_use_seg]"
        and rb = "VList [text_seg ''see this'', tool_use_seg]"
        and e' = VNone and n' = "VStr ''x''"]
  note u = merge_content_total_lossless_up_to_strip[where a = "''Hello ''" and b = "''world ''"
        and ra = "VStr ''Hello world''"]
  note v = merge_content_total_lossless_up_to_strip[where xs = "[tool_use_seg, text_seg ''a '']"
        and b = "'' b ''" and rc = "VList [tool_use_seg, text_seg ''a  b'']"]
  have a: "all_text (VList [text_seg ''see this'', tool_use_seg])
     = strip ('' see'' @ '' this '') @ all_text (VList [tool_use_seg])"
  proof -
    have "all_text (VList [text_seg ''see this'', tool_use_seg]) =
        (if [text_seg '' this '', tool_use_seg] \<noteq> [] \<and>
            is_text_seg (hd [text_seg '' this '', tool_use_seg])
         then strip ('' see'' @ seg_text (hd [text_seg '' this '', tool_use_seg])) @
              all_text (VList (tl [text_seg '' this '', tool_use_seg]))
         else strip '' see'' @ all_text (VList [text_seg '' this '', tool_use_seg]))"
      using t merge_example by blast
    then show ?thesis using 3 by simp
  qed
  have b: "all_text (VStr ''Hello world'') = strip (''Hello '' @ ''world '')"
    using u merge_example_str by blast
  have c: "all_text (VList [tool_use_seg, text_seg ''a  b''])
     = all_text (VList [tool_use_seg]) @ strip (''a '' @ '' b '')"
  proof -
    have "all_text (VList [tool_use_seg, text_seg ''a  b'']) =
        (if [tool_use_seg, text_seg ''a ''] \<noteq> [] \<and>
            is_text_seg (last [tool_use_seg, text_seg ''a ''])
         then all_text (VList (butlast [tool_use_seg, text_seg ''a ''])) @
              strip (seg_text (last [tool_use_seg, text_seg ''a '']) @ '' b '')
         else all_text (VList [tool_use_seg, text_seg ''a '']) @ strip '' b '')"
      using v merge_example_list_str by blast
    then show ?thesis using 4 by simp
  qed
  have d: "subseq (all_text (VList [text_seg ''see this'', tool_use_seg]))
     (all_text (VStr '' see'') @ all_text (VList [text_seg '' this '', tool_use_seg])) \<and>
   non_text (VList [text_seg ''see this'', tool_use_seg])
     = non_text (VStr '' see'') @ non_text (VList [text_seg '' this '', tool_use_seg]) \<and>
   merge_content VNone (VStr ''x'') = Inl ValueError"
    using t merge_example 2 by blast
  show ?thesis
    using 1 2 a b c d merge_example merge_example_str merge_example_list_str by blast
qed

text \<open>
  Claim C3 as stated fails for {list, list}: the text \<open>a\<close> of the existing list is not
  in the merged content. It also fails for text with whitespace at an end, which
  \<open>strip\<close> removes.
\<close>

theorem merge_content_list_list_counterexample:
  "merge_content (VList [text_seg ''a'']) (VList [text_seg ''b'']) = Inr (VList [text_seg ''b'']) \<and>
   all_text (VList [text_seg ''a'']) @ all_text (VList [text_seg ''b'']) = ''ab'' \<and>
   all_text (VList [text_seg ''b'']) = ''b'' \<and>
   merge_content (VStr '' a'') (VStr ''b'') = Inr (VStr ''ab'')"
  by (simp add: strip_def isspace_def)

declare retry_from.simps [simp del]

subsection \<open>The retry loop\<close>

lemma retry_skip:
  assumes "\<forall>i. a \<le> i \<and> i < k \<longrightarrow> (\<exists>e. cl (n0 + i) p = Raises e \<and> transient e)"
    and "a \<le> k" and "k < max_retries"
  shows "retry_from cl p n0 a = retry_from cl p n0 k"
  using assms
proof (induction "k - a" arbitrary: a)
  case 0
  then show ?case by simp
next
  case (Suc d)
  then have ak: "a < k" by simp
  with Suc.prems obtain e where e: "cl (n0 + a) p = Raises e" "transient e" by auto
  have "retry_from cl p n0 a = retry_from cl p n0 (Suc a)"
    using e ak Suc.prems(3) by (subst retry_from.simps) (simp add: max_retries_def)
  also have "\<dots> = retry_from cl p n0 k"
    using Suc.hyps Suc.prems ak by (intro Suc.hyps(1)) auto
  finally show ?case .
qed

text \<open>
  Claim C5, as amended. If the provider raises a transient error (rate limit or internal
  server error) at each of the first \<open>k\<close> attempts, \<open>k < 25\<close>, and then returns, the
  call returns that reply after exactly \<open>k + 1\<close> attempts. If it raises a transient error
  at all 25 attempts, the call fails after exactly 25 attempts: it prints the payload and
  raises again the transient error of the last attempt. If an attempt raises any other
  error, that error propagates at once, with no further attempt.
\<close>

theorem retry_loop_attempts:
  "(k < max_retries \<and> (\<forall>i < k. \<exists>e. cl (n0 + i) p = Raises e \<and> transient e) \<and>
      cl (n0 + k) p = Returns r \<longrightarrow>
        send_with_retry cl p n0 = (Inr r, k + 1, [])) \<and>
   ((\<forall>i < max_retries - 1. \<exists>e. cl' (n0 + i) p = Raises e \<and> transient e) \<and>
      cl' (n0 + (max_retries - 1)) p = Raises e' \<and> transient e' \<longrightarrow>
        send_with_retry cl' p n0 = (Inl e', max_retries, [p])) \<and>
   (j < max_retries \<and> (\<forall>i < j. \<exists>e. cl'' (n0 + i) p = Raises e \<and> transient e) \<and>
      cl'' (n0 + j) p = Raises e'' \<and> \<not> transient e'' \<longrightarrow>
        send_with_retry cl'' p n0 = (Inl e'', j + 1, []))"
proof (intro conjI impI)
  assume a: "k < max_retries \<and> (\<forall>i < k. \<exists>e. cl (n0 + i) p = Raises e \<and> transient e) \<and>
      cl (n0 + k) p = Returns r"
  then have "retry_from cl p n0 0 = retry_from cl p n0 k" by (intro retry_skip) auto
  also have "\<dots> = (Inr r, k + 1, [])" using a by (subst retry_from.simps) simp
  finally show "send_with_retry cl p n0 = (Inr r, k + 1, [])" by (simp add: send_with_retry_def)
next
  assume a: "(\<forall>i < max_retries - 1. \<exists>e. cl' (n0 + i) p = Raises e \<and> transient e) \<and>
      cl' (n0 + (max_retries - 1)) p = Raises e' \<and> transient e'"
  then have "retry_from cl' p n0 0 = retry_from cl' p n0 (max_retries - 1)"
    by (intro retry_skip) (auto simp: max_retries_def)
  also have "\<dots> = (Inl e', max_retries, [p])"
    using a by (subst retry_from.simps) (simp add: max_retries_def)
  finally show "send_with_retry cl' p n0 = (Inl e', max_retries, [p])"
    by (simp add: send_with_retry_def)
next
  assume a: "j < max_retries \<and> (\<forall>i < j. \<exists>e. cl'' (n0 + i) p = Raises e \<and> transient e) \<and>
      cl'' (n0 + j) p = Raises e'' \<and> \<not> transient e''"
  then have "retry_from cl'' p n0 0 = retry_from cl'' p n0 j" by (intro retry_skip) auto
  also have "\<dots> = (Inl e'', j + 1, [])" using a by (subst retry_from.simps) simp
  finally show "send_with_retry cl'' p n0 = (Inl e'', j + 1, [])" by (simp add: send_with_retry_def)
qed

theorem retry_loop_attempts_witness:
  "send_with_retry (fails_then_ok 3) ex_payload 0 = (Inr ok_response, 4, []) \<and>
   send_with_retry always_rate_limited ex_payload 0 = (Inl RateLimitError, 25, [ex_payload]) \<and>
   send_with_retry (fatal_at 2) ex_payload 0 = (Inl (OtherError ''bad request''), 3, [])"
proof -
  have 1: "(3::nat) < max_retries \<and>
      (\<forall>i < 3. \<exists>e. fails_then_ok 3 (0 + i) ex_payload = Raises e \<and> transient e) \<and>
      fails_then_ok 3 (0 + 3) ex_payload = Returns ok_response"
    by (simp add: max_retries_def fails_then_ok_def transient_def)
  have 2: "(\<forall>i < max_retries - 1. \<exists>e. always_rate_limited (0 + i) ex_payload = Raises e \<and> transient e) \<and>
      always_rate_limited (0 + (max_retries - 1)) ex_payload = Raises RateLimitError \<and>
      transient RateLimitError"
    by (simp add: always_rate_limited_def transient_def)
  have 3: "(2::nat) < max_retries \<and>
      (\<forall>i < 2. \<exists>e. fatal_at 2 (0 + i) ex_payload = Raises e \<and> transient e) \<and>
      fatal_at 2 (0 + 2) ex_payload = Raises (OtherError ''bad request'') \<and>
      \<not> transient (OtherError ''bad request'')"
    by (simp add: max_retries_def fatal_at_def transient_def)
  show ?thesis
    using retry_loop_attempts[of 3 "fails_then_ok 3" 0 ex_payload ok_response
        always_rate_limited RateLimitError 2 "fatal_at 2" "OtherError ''bad request''"] 1 2 3
    by (simp add: max_retries_def)
qed

lemma always_rate_limited_result:
  "send_with_retry always_rate_limited p 0 = (Inl RateLimitError, 25, [p])"
proof -
  have "retry_from always_rate_limited p 0 0 = retry_from always_rate_limited p 0 24"
    by (intro retry_skip) (auto simp: max_retries_def always_rate_limited_def transient_def)
  also have "\<dots> = (Inl RateLimitError, 25, [p])"
    by (subst retry_from.simps) (simp add: max_retries_def always_rate_limited_def transient_def)
  finally show ?thesis by (simp add: send_with_retry_def)
qed

text \<open>
  Claim C5 as stated fails on the error of the exhausted loop: against a provider that
  always raises RateLimitError the call raises that RateLimitError itself, not the
  dedicated exception after the loop, and the error is the same whatever the payload.
\<close>

theorem retry_exhausted_reraises_transient_counterexample:
  "fst (send_with_retry always_rate_limited ex_payload 0) = Inl RateLimitError \<and>
   fst (send_with_retry always_rate_limited ex_payload 0) \<noteq> Inl MaxRetriesReached \<and>
   always_rate_limited 24 ex_payload = Raises RateLimitError \<and>
   fst (send_with_retry always_rate_limited (ex_payload\<lparr>p_messages := []\<rparr>) 0)
     = fst (send_with_retry always_rate_limited ex_payload 0)"
proof -
  have "always_rate_limited 24 ex_payload = Raises RateLimitError"
    by (simp add: always_rate_limited_def)
  then show ?thesis by (simp add: always_rate_limited_result)
qed

subsection \<open>Tool dispatch\<close>

lemma handle_requests_append:
  "handle_requests th (xs @ ys) w tr =
     (case handle_requests th xs w tr of
        (None, th1, w1, tr1) \<Rightarrow> handle_requests th1 ys w1 tr1
      | (Some e, x) \<Rightarrow> (Some e, x))"
  by (induction xs arbitrary: th w tr)
     (auto split: sum.splits prod.splits val.splits option.splits)

lemma handle_requests_tool_use:
  "handle_requests th (request_of (ToolUseBlock i n inp)) w tr =
     (case map_of (function_map th) n of
        None \<Rightarrow> (Some KeyError, th, w, tr)
      | Some f \<Rightarrow>
          (case f inp w of
             (Inl e, w1) \<Rightarrow> (Some e, th, w1, tr @ [(n, inp)])
           | (Inr out, w1) \<Rightarrow>
               (None,
                th\<lparr>requests := requests th @ request_of (ToolUseBlock i n inp),
                   results := results th @ [result_of i out]\<rparr>,
                w1, tr @ [(n, inp)])))"
  by (simp add: tool_name_and_input_def generate_response_schema_def result_of_def
      split: option.splits sum.splits prod.splits)

lemma handle_requests_success:
  "handle_requests th (concat (map request_of bs)) w tr = (None, th1, w1, tr1) \<Longrightarrow>
   list_all2 aligned (results th) (requests th) \<Longrightarrow>
     requests th1 = requests th @ concat (map request_of bs) \<and>
     list_all2 aligned (results th1) (requests th1) \<and>
     tr1 = tr @ concat (map call_of bs) \<and>
     function_map th1 = function_map th \<and> tools th1 = tools th"
proof (induction bs arbitrary: th w tr)
  case Nil
  then show ?case by simp
next
  case (Cons b bs)
  show ?case
  proof (cases b)
    case (TextBlock s)
    with Cons.prems have "handle_requests th (concat (map request_of bs)) w tr = (None, th1, w1, tr1)"
      by simp
    from Cons.IH[OF this Cons.prems(2)] TextBlock show ?thesis by auto
  next
    case (ToolUseBlock i n inp)
    let ?rq = "request_of (ToolUseBlock i n inp)"
    from Cons.prems(1) ToolUseBlock
    have run: "(case handle_requests th ?rq w tr of
        (None, th', w', tr') \<Rightarrow> handle_requests th' (concat (map request_of bs)) w' tr'
      | (Some e, x) \<Rightarrow> (Some e, x)) = (None, th1, w1, tr1)"
      using handle_requests_append[of th ?rq "concat (map request_of bs)" w tr] by simp
    then obtain f out w2 where f: "map_of (function_map th) n = Some f" "f inp w = (Inr out, w2)"
      by (auto simp: handle_requests_tool_use simp del: request_of.simps handle_requests.simps
          split: option.splits sum.splits prod.splits)
    let ?th = "th\<lparr>requests := requests th @ ?rq, results := results th @ [result_of i out]\<rparr>"
    from run f have rest: "handle_requests ?th (concat (map request_of bs)) w2 (tr @ [(n, inp)])
        = (None, th1, w1, tr1)"
      by (simp add: handle_requests_tool_use del: request_of.simps handle_requests.simps)
    have al: "list_all2 aligned (results ?th) (requests ?th)"
    proof -
      have "aligned (result_of i out) (hd ?rq)" by (simp add: aligned_def result_of_def)
      then have "list_all2 aligned [result_of i out] ?rq" by simp
      with Cons.prems(2) show ?thesis by (simp add: list_all2_appendI del: request_of.simps)
    qed
    from Cons.IH[OF rest al] ToolUseBlock show ?thesis by auto
  qed
qed

lemma gen_append:
  "generate_request_schema (resp\<lparr>r_content := xs @ ys\<rparr>)
     = generate_request_schema (resp\<lparr>r_content := xs\<rparr>) @ generate_request_schema (resp\<lparr>r_content := ys\<rparr>)"
  by (simp add: generate_request_schema_def)

lemma handle_response_InrD:
  assumes "handle_response th resp w = (Inr (rq, rs), th', w', tr)"
  shows "handle_requests (clear th) (generate_request_schema resp) w [] = (None, th', w', tr)"
    and "rq = requests th'" and "rs = results th'"
  using assms by (auto simp: handle_response_def split: prod.splits option.splits)

lemma handle_response_extend:
  assumes pre: "handle_response th (resp\<lparr>r_content := pre\<rparr>) w = (Inr (rq1, rs1), th1, w1, tr1)"
  shows "handle_response th (resp\<lparr>r_content := pre @ b # post\<rparr>) w =
     (case handle_requests th1 (request_of b @ concat (map request_of post)) w1 tr1 of
        (None, th2, w2, tr2) \<Rightarrow> (Inr (requests th2, results th2), th2, w2, tr2)
      | (Some e, th2, w2, tr2) \<Rightarrow> (Inl e, th2, w2, tr2))"
proof -
  from handle_response_InrD(1)[OF pre]
  have "handle_requests (clear th) (concat (map request_of pre)) w [] = (None, th1, w1, tr1)"
    by (simp add: generate_request_schema_def)
  then show ?thesis
    by (simp add: handle_response_def generate_request_schema_def handle_requests_append
        del: handle_requests.simps)
qed

lemma handle_response_pre_facts:
  assumes pre: "handle_response th (resp\<lparr>r_content := pre\<rparr>) w = (Inr (rq1, rs1), th1, w1, tr1)"
  shows "function_map th1 = function_map th" and "requests th1 = rq1" and "results th1 = rs1"
proof -
  from handle_response_InrD[OF pre]
  have run: "handle_requests (clear th) (concat (map request_of pre)) w [] = (None, th1, w1, tr1)"
    and r: "rq1 = requests th1" "rs1 = results th1"
    by (simp_all add: generate_request_schema_def)
  have "list_all2 aligned (results (clear th)) (requests (clear th))" by (simp add: clear_def)
  from handle_requests_success[OF run this] show "function_map th1 = function_map th"
    by (simp add: clear_def)
  from r show "requests th1 = rq1" "results th1 = rs1" by simp_all
qed

text \<open>
  Claim C7, as amended. \<open>handle_response\<close> takes the \<open>tool_use\<close> blocks of the reply
  in order, looks each tool up by name and calls it with the request's input as keyword
  arguments. When it returns normally, it returns the requests and the results, which are
  also the handler's pending buffers: lists of equal length, the result at each index
  answering the request at that index, and the tools called are those of the blocks, in
  order. After a run of blocks \<open>pre\<close> that succeeds: a next request whose name is not
  registered raises the KeyError of the dictionary lookup, with no further call; a next
  tool that raises has its own exception propagate as it is, not wrapped, and whatever
  blocks \<open>post\<close> follow, no later tool is called and the handler and the world are as
  that tool left them; a next tool that returns adds its request and result to the lists.
\<close>

theorem tool_dispatch_contract:
  "(handle_response th resp w = (Inr (rq, rs), th', w', tr) \<longrightarrow>
      rq = generate_request_schema resp \<and> requests th' = rq \<and> results th' = rs \<and>
      length rs = length rq \<and> list_all2 aligned rs rq \<and>
      tr = concat (map call_of (r_content resp))) \<and>
   (handle_response th (resp\<lparr>r_content := pre\<rparr>) w = (Inr (rq1, rs1), th1, w1, tr1) \<longrightarrow>
      (map_of (function_map th) nb = None \<longrightarrow>
         handle_response th (resp\<lparr>r_content := pre @ ToolUseBlock ib nb inpb # post\<rparr>) w
           = (Inl KeyError, th1, w1, tr1)) \<and>
      (map_of (function_map th) nc = Some f \<and> f inpc w1 = (Inl e, w2) \<longrightarrow>
         handle_response th (resp\<lparr>r_content := pre @ ToolUseBlock ic nc inpc # post\<rparr>) w
           = (Inl e, th1, w2, tr1 @ [(nc, inpc)])) \<and>
      (map_of (function_map th) nd = Some g \<and> g inpd w1 = (Inr out, w3) \<longrightarrow>
         handle_response th (resp\<lparr>r_content := pre @ [ToolUseBlock idd nd inpd]\<rparr>) w
           = (Inr (rq1 @ request_of (ToolUseBlock idd nd inpd), rs1 @ [result_of idd out]),
              th1\<lparr>requests := rq1 @ request_of (ToolUseBlock idd nd inpd),
                  results := rs1 @ [result_of idd out]\<rparr>,
              w3, tr1 @ [(nd, inpd)]))) \<and>
   handle_response th (resp\<lparr>r_content := []\<rparr>) w = (Inr ([], []), clear th, w, [])"
proof (intro conjI impI)
  assume a: "handle_response th resp w = (Inr (rq, rs), th', w', tr)"
  from handle_response_InrD[OF a]
  have run: "handle_requests (clear th) (concat (map request_of (r_content resp))) w [] = (None, th', w', tr)"
    and r: "rq = requests th'" "rs = results th'"
    by (simp_all add: generate_request_schema_def)
  have "list_all2 aligned (results (clear th)) (requests (clear th))" by (simp add: clear_def)
  from handle_requests_success[OF run this]
  have f: "requests th' = generate_request_schema resp" "list_all2 aligned (results th') (requests th')"
    "tr = concat (map call_of (r_content resp))"
    by (auto simp: clear_def generate_request_schema_def)
  show "rq = generate_request_schema resp" "requests th' = rq" "results th' = rs"
    "list_all2 aligned rs rq" "tr = concat (map call_of (r_content resp))"
    using f r by simp_all
  show "length rs = length rq" using f(2) r by (simp add: list_all2_lengthD)
next
  assume pre: "handle_response th (resp\<lparr>r_content := pre\<rparr>) w = (Inr (rq1, rs1), th1, w1, tr1)"
    and nb: "map_of (function_map th) nb = None"
  show "handle_response th (resp\<lparr>r_content := pre @ ToolUseBlock ib nb inpb # post\<rparr>) w
           = (Inl KeyError, th1, w1, tr1)"
    using nb handle_response_pre_facts(1)[OF pre]
    by (simp add: handle_response_extend[OF pre] handle_requests_append handle_requests_tool_use
        del: handle_requests.simps request_of.simps)
next
  assume pre: "handle_response th (resp\<lparr>r_content := pre\<rparr>) w = (Inr (rq1, rs1), th1, w1, tr1)"
    and c: "map_of (function_map th) nc = Some f \<and> f inpc w1 = (Inl e, w2)"
  show "handle_response th (resp\<lparr>r_content := pre @ ToolUseBlock ic nc inpc # post\<rparr>) w
           = (Inl e, th1, w2, tr1 @ [(nc, inpc)])"
    using c handle_response_pre_facts(1)[OF pre]
    by (simp add: handle_response_extend[OF pre] handle_requests_append handle_requests_tool_use
        del: handle_requests.simps request_of.simps)
next
  assume pre: "handle_response th (resp\<lparr>r_content := pre\<rparr>) w = (Inr (rq1, rs1), th1, w1, tr1)"
    and d: "map_of (function_map th) nd = Some g \<and> g inpd w1 = (Inr out, w3)"
  show "handle_response th (resp\<lparr>r_content := pre @ [ToolUseBlock idd nd inpd]\<rparr>) w
           = (Inr (rq1 @ request_of (ToolUseBlock idd nd inpd), rs1 @ [result_of idd out]),
              th1\<lparr>requests := rq1 @ request_of (ToolUseBlock idd nd inpd),
                  results := rs1 @ [result_of idd out]\<rparr>,
              w3, tr1 @ [(nd, inpd)])"
    using d handle_response_pre_facts[OF pre]
    by (simp add: handle_response_extend[OF pre] handle_requests_append handle_requests_tool_use
        del: handle_requests.simps request_of.simps)
next
  show "handle_response th (resp\<lparr>r_content := []\<rparr>) w = (Inr ([], []), clear th, w, [])"
    by (simp add: handle_response_def generate_request_schema_def clear_def)
qed

lemma ex_pre_run:
  "handle_response ex_handler ((ex_reply [])\<lparr>r_content := [TextBlock ''let me add'', add_block]\<rparr>) 0
     = (Inr (request_of add_block, [result_of ''1'' (VInt 5)]), ex_handler_after, 1,
        [(''add'', [(''a'', VInt 2), (''b'', VInt 3)])])"
  by (simp add: handle_response_def generate_request_schema_def ex_reply_def add_block_def
      ex_handler_def ex_handler_after_def clear_def tool_name_and_input_def add_tool_def
      generate_response_schema_def result_of_def)

theorem tool_dispatch_contract_witness:
  "handle_response ex_handler ((ex_reply [])\<lparr>r_content := [TextBlock ''let me add'', add_block]\<rparr>) 0
     = (Inr (request_of add_block, [result_of ''1'' (VInt 5)]), ex_handler_after, 1,
        [(''add'', [(''a'', VInt 2), (''b'', VInt 3)])]) \<and>
   list_all2 aligned [result_of ''1'' (VInt 5)] (request_of add_block) \<and>
   map_of (function_map ex_handler) ''missing'' = None \<and>
   handle_response ex_handler ((ex_reply [])\<lparr>r_content :=
       [TextBlock ''let me add'', add_block] @ ToolUseBlock ''2'' ''missing'' [] # [add_block]\<rparr>) 0
     = (Inl KeyError, ex_handler_after, 1, [(''add'', [(''a'', VInt 2), (''b'', VInt 3)])]) \<and>
   map_of (function_map ex_handler) ''boom'' = Some boom_tool \<and>
   boom_tool [] 1 = (Inl (OtherError ''boom''), 2) \<and>
   handle_response ex_handler ((ex_reply [])\<lparr>r_content :=
       [TextBlock ''let me add'', add_block] @ ToolUseBlock ''2'' ''boom'' [] # [add_block]\<rparr>) 0
     = (Inl (OtherError ''boom''), ex_handler_after, 2,
        [(''add'', [(''a'', VInt 2), (''b'', VInt 3)])] @ [(''boom'', [])]) \<and>
   map_of (function_map ex_handler) ''add'' = Some add_tool \<and>
   add_tool [(''a'', VInt 1), (''b'', VInt 1)] 1 = (Inr (VInt 2), 2) \<and>
   handle_response ex_handler ((ex_reply [])\<lparr>r_content :=
       [TextBlock ''let me add'', add_block] @ [ToolUseBlock ''2'' ''add'' [(''a'', VInt 1), (''b'', VInt 1)]]\<rparr>) 0
     = (Inr (request_of add_block @ request_of (ToolUseBlock ''2'' ''add'' [(''a'', VInt 1), (''b'', VInt 1)]),
             [result_of ''1'' (VInt 5)] @ [result_of ''2'' (VInt 2)]),
        ex_handler_after\<lparr>requests := request_of add_block @
                              request_of (ToolUseBlock ''2'' ''add'' [(''a'', VInt 1), (''b'', VInt 1)]),
                          results := [result_of ''1'' (VInt 5)] @ [result_of ''2'' (VInt 2)]\<rparr>,
        2, [(''add'', [(''a'', VInt 2), (''b'', VInt 3)])] @ [(''add'', [(''a'', VInt 1), (''b'', VInt 1)])])"
proof -
  have 1: "map_of (function_map ex_handler) ''missing'' = None"
    and 2: "map_of (function_map ex_handler) ''boom'' = Some boom_tool"
    and 3: "boom_tool [] 1 = (Inl (OtherError ''boom''), 2)"
    and 4: "map_of (function_map ex_handler) ''add'' = Some add_tool"
    and 5: "add_tool [(''a'', VInt 1), (''b'', VInt 1)] 1 = (Inr (VInt 2), 2)"
    by (simp_all add: ex_handler_def boom_tool_def add_tool_def)
  note a = tool_dispatch_contract[where th = ex_handler
      and resp = "(ex_reply [])\<lparr>r_content := [TextBlock ''let me add'', add_block]\<rparr>" and w = 0
      and rq = "request_of add_block" and rs = "[result_of ''1'' (VInt 5)]"
      and th' = ex_handler_after and w' = 1
      and tr = "[(''add'', [(''a'', VInt 2), (''b'', VInt 3)])]"]
  note t = tool_dispatch_contract[where th = ex_handler and resp = "ex_reply []" and w = 0
      and pre = "[TextBlock ''let me add'', add_block]"
      and ?rq1.0 = "request_of add_block" and ?rs1.0 = "[result_of ''1'' (VInt 5)]"
      and ?th1.0 = ex_handler_after and ?w1.0 = 1
      and ?tr1.0 = "[(''add'', [(''a'', VInt 2), (''b'', VInt 3)])]"
      and nb = "''missing''" and ib = "''2''" and inpb = "[]" and post = "[add_block]"
      and nc = "''boom''" and f = boom_tool and inpc = "[]" and e = "OtherError ''boom''"
      and ?w2.0 = 2 and ic = "''2''"
      and nd = "''add''" and g = add_tool and inpd = "[(''a'', VInt 1), (''b'', VInt 1)]"
      and out = "VInt 2" and ?w3.0 = 2 and idd = "''2''"]
  show ?thesis
    using a[THEN conjunct1] t[THEN conjunct2, THEN conjunct1] ex_pre_run 1 2 3 4 5 by blast
qed

text \<open>
  Claim C7 as stated fails on the two errors: there is no UnknownTool and no
  ToolExecutionError. A request for a name that is not registered and a request for a
  registered tool whose body raises KeyError end in the same exception, so the exception
  does not tell an unknown tool from a failed one (only the second run called a tool);
  and the exception of \<open>boom\<close> arrives as the tool raised it.
\<close>

theorem tool_errors_not_distinguished_counterexample:
  "map_of (function_map cex_handler) ''missing'' = None \<and>
   handle_response cex_handler (ex_reply [ToolUseBlock ''1'' ''missing'' []]) 0
     = (Inl KeyError, cex_handler, 0, []) \<and>
   map_of (function_map cex_handler) ''lookup'' = Some lookup_tool_fn \<and>
   handle_response cex_handler (ex_reply [ToolUseBlock ''1'' ''lookup'' []]) 0
     = (Inl KeyError, cex_handler, 1, [(''lookup'', [])]) \<and>
   fst (handle_response cex_handler (ex_reply [ToolUseBlock ''1'' ''missing'' []]) 0)
     = fst (handle_response cex_handler (ex_reply [ToolUseBlock ''1'' ''lookup'' []]) 0) \<and>
   boom_tool [] 0 = (Inl (OtherError ''boom''), 1) \<and>
   handle_response cex_handler (ex_reply [ToolUseBlock ''1'' ''boom'' []]) 0
     = (Inl (OtherError ''boom''), cex_handler, 1, [(''boom'', [])])"
  by (simp add: handle_response_def generate_request_schema_def ex_reply_def cex_handler_def
      clear_def tool_name_and_input_def lookup_tool_fn_def boom_tool_def)

subsection \<open>Building the outbound payload\<close>















declare auto_loop.simps [simp del]

subsection \<open>The auto loop\<close>

text \<open>
  Claim C4, evaluated. Against a mailbox that reports a pending tool request with every
  reply, in the shape the Anthropic mailbox returns it, \<open>_respond_auto\<close> sends once and
  returns the first reply: the reply node has the truthy attribute \<open>requests\<close>, but the
  loop looks for an attribute \<open>attributes\<close>, which no node has. When the requests are
  under \<open>attributes\<close>, the loop runs to its cap and the mailbox is sent to 8 times.
\<close>

theorem respond_auto_stops_after_one_send:
  "respond_auto tool_stub new_bot (VStr ''add 2 and 3'') (VStr ''user'') =
     (Inr ''working'',
      \<lparr> heap =
          [\<lparr> role = VStr ''user'', content = VStr ''add 2 and 3'', attrs = [],
             replies = [1], parent = None \<rparr>,
           \<lparr> role = VStr ''assistant'', content = VStr ''working'',
             attrs = [(''requests'', VList (request_of add_block)),
                      (''results'', VList [result_of ''1'' (VInt 5)])],
             replies = [], parent = Some 0 \<rparr>],
        conversation = Some 1, mstate = 1 \<rparr>) \<and>
   truthy (VList (request_of add_block)) \<and>
   mstate (snd (respond_auto attributes_stub new_bot (VStr ''add 2 and 3'') (VStr ''user''))) = 8"
proof -
  have "respond_auto tool_stub new_bot (VStr ''add 2 and 3'') (VStr ''user'') =
     (Inr ''working'',
      \<lparr> heap =
          [\<lparr> role = VStr ''user'', content = VStr ''add 2 and 3'', attrs = [],
             replies = [1], parent = None \<rparr>,
           \<lparr> role = VStr ''assistant'', content = VStr ''working'',
             attrs = [(''requests'', VList (request_of add_block)),
                      (''results'', VList [result_of ''1'' (VInt 5)])],
             replies = [], parent = Some 0 \<rparr>],
        conversation = Some 1, mstate = 1 \<rparr>)"
    by (simp add: respond_auto_def respond_def cvsn_respond_def new_bot_def tool_stub_def
      add_reply_def init_node_def ordinary_defs is_empty_def create_empty_def AList.delete_eq
      auto_loop.simps max_tool_prompts_def getattr_attributes_def add_block_def)
  moreover have "truthy (VList (request_of add_block))" by (simp add: add_block_def)
  moreover have
    "mstate (snd (respond_auto attributes_stub new_bot (VStr ''add 2 and 3'') (VStr ''user''))) = 8"
    by (simp add: respond_auto_def respond_def cvsn_respond_def new_bot_def attributes_stub_def
      add_reply_def init_node_def ordinary_defs is_empty_def create_empty_def AList.delete_eq
      auto_loop.simps max_tool_prompts_def getattr_attributes_def add_block_def)
  ultimately show ?thesis by simp
qed

subsection \<open>A failed transport cycle\<close>

lemma add_reply_child_props:
  assumes ne: "\<not> is_empty (h ! c)" and c: "c < length h"
  shows "\<exists>h1. add_reply h c [(''content'', t), (''role'', r)] = Inr (h1, length h) \<and>
     length h1 = length h + 1 \<and>
     (\<forall>a < length h. a \<noteq> c \<longrightarrow> h1 ! a = h ! a) \<and>
     h1 ! c = (h ! c)\<lparr>replies := replies (h ! c) @ [length h]\<rparr> \<and>
     h1 ! length h = \<lparr> role = r, content = t, attrs = [], replies = [], parent = Some c \<rparr>"
  using assms
  by (simp add: add_reply_def init_node_def ordinary_defs AList.delete_eq nth_list_update nth_append)

lemma add_reply_turn:
  assumes c: "c < length h"
  shows "\<exists>h1 c1. add_reply h c [(''content'', t), (''role'', r)] = Inr (h1, c1) \<and>
     c1 < length h1 \<and>
     role (h1 ! c1) = r \<and> content (h1 ! c1) = t \<and> replies (h1 ! c1) = [] \<and>
     (\<forall>a < length h. a \<noteq> c \<longrightarrow> h1 ! a = h ! a) \<and>
     (if is_empty (h ! c)
      then c1 = c \<and> length h1 = length h \<and> parent (h1 ! c) = None
      else c1 = length h \<and> length h1 = length h + 1 \<and>
           h1 ! c = (h ! c)\<lparr>replies := replies (h ! c) @ [length h]\<rparr> \<and>
           h1 ! c1 = \<lparr> role = r, content = t, attrs = [], replies = [], parent = Some c \<rparr>) \<and>
     (r \<noteq> VStr ''empty'' \<or> t \<noteq> VStr '''' \<longrightarrow> h1 \<noteq> h)"
proof (cases "is_empty (h ! c)")
  case True
  let ?n = "\<lparr> role = r, content = t,
      attrs = AList.delete ''parent'' (AList.delete ''replies'' (attrs (h ! c))),
      replies = [], parent = None \<rparr>"
  have i: "init_node (attrs (h ! c)) [(''content'', t), (''role'', r)] = Inr ?n"
    by (simp add: init_node_def ordinary_defs)
  have ar: "add_reply h c [(''content'', t), (''role'', r)] = Inr (h[c := ?n], c)"
    using True i by (simp add: add_reply_def)
  have ne: "r \<noteq> VStr ''empty'' \<or> t \<noteq> VStr '''' \<longrightarrow> h[c := ?n] \<noteq> h"
  proof
    assume d: "r \<noteq> VStr ''empty'' \<or> t \<noteq> VStr ''''"
    show "h[c := ?n] \<noteq> h"
    proof
      assume "h[c := ?n] = h"
      then have "h[c := ?n] ! c = h ! c" by simp
      then have "?n = h ! c" using c by simp
      then have "role (h ! c) = r \<and> content (h ! c) = t" by (metis node.select_convs(1,2))
      with True d show False by (auto simp: is_empty_def)
    qed
  qed
  show ?thesis
    using ar c True ne by (intro exI[of _ "h[c := ?n]"] exI[of _ c]) simp
next
  case False
  from add_reply_child_props[OF False c, of t r] obtain h1 where
    h1: "add_reply h c [(''content'', t), (''role'', r)] = Inr (h1, length h)"
      "length h1 = length h + 1"
      "\<forall>a < length h. a \<noteq> c \<longrightarrow> h1 ! a = h ! a"
      "h1 ! c = (h ! c)\<lparr>replies := replies (h ! c) @ [length h]\<rparr>"
      "h1 ! length h = \<lparr> role = r, content = t, attrs = [], replies = [], parent = Some c \<rparr>"
    by blast
  have "h1 \<noteq> h" using h1(2) by auto
  then show ?thesis
    using h1 False by (intro exI[of _ h1] exI[of _ "length h"]) simp
qed

text \<open>
  Claim C6, as amended. \<open>_cvsn_respond\<close> adds the new turn before the send: a child of
  the current node (a node of the model: its extra attributes have ordinary names), or,
  on the first call of a conversation, the sentinel itself, reinitialised in place. When
  the transport cycle fails, the error propagates and no reply node is added. The tree is not as it was before the call: the node of the new
  turn remains and is the current node, with the role and the content of the call and no
  reply, and every other node but the one it was added to is as it was. When the
  transport cycle resolves, the reply node is added after it, to the node of the new
  turn, with the extra data of the reply as attributes.
\<close>

theorem failed_send_leaves_new_turn:
  "conversation b = Some c \<and> c < length (heap b) \<and> ordinary_node (heap b ! c) \<longrightarrow>
   (\<exists>h1 c1. add_reply (heap b) c [(''content'', t), (''role'', r)] = Inr (h1, c1) \<and>
      c1 < length h1 \<and>
      role (h1 ! c1) = r \<and> content (h1 ! c1) = t \<and> replies (h1 ! c1) = [] \<and>
      (\<forall>a < length (heap b). a \<noteq> c \<longrightarrow> h1 ! a = heap b ! a) \<and>
      (if is_empty (heap b ! c)
       then c1 = c \<and> length h1 = length (heap b) \<and> parent (h1 ! c) = None
       else c1 = length (heap b) \<and> length h1 = length (heap b) + 1 \<and>
            h1 ! c = (heap b ! c)\<lparr>replies := replies (heap b ! c) @ [length (heap b)]\<rparr> \<and>
            h1 ! c1 = \<lparr> role = r, content = t, attrs = [], replies = [], parent = Some c \<rparr>) \<and>
      (r \<noteq> VStr ''empty'' \<or> t \<noteq> VStr '''' \<longrightarrow> h1 \<noteq> heap b) \<and>
      (\<forall>e s2 h2. send (mstate b) h1 c1 = (Inl e, s2, h2) \<longrightarrow>
         cvsn_respond send b (Some t) r =
           (Inl e, \<lparr> heap = h2, conversation = Some c1, mstate = s2 \<rparr>)) \<and>
      (\<forall>txt rl extra s2 h2 h3 c3.
         send (mstate b) h1 c1 = (Inr (txt, rl, extra), s2, h2) \<and> ordinary_node (h2 ! c1) \<and>
         ''content'' \<notin> fst ` set extra \<and> ''role'' \<notin> fst ` set extra \<and>
         add_reply h2 c1 ([(''content'', VStr txt), (''role'', VStr rl)] @ extra) = Inr (h3, c3) \<longrightarrow>
         cvsn_respond send b (Some t) r =
           (Inr (txt, c3), \<lparr> heap = h3, conversation = Some c3, mstate = s2 \<rparr>)))"
proof
  assume a: "conversation b = Some c \<and> c < length (heap b) \<and> ordinary_node (heap b ! c)"
  then have c: "c < length (heap b)" by simp
  from add_reply_turn[OF c, of t r] obtain h1 c1 where
    h1: "add_reply (heap b) c [(''content'', t), (''role'', r)] = Inr (h1, c1)"
    and props: "c1 < length h1 \<and>
      role (h1 ! c1) = r \<and> content (h1 ! c1) = t \<and> replies (h1 ! c1) = [] \<and>
      (\<forall>a < length (heap b). a \<noteq> c \<longrightarrow> h1 ! a = heap b ! a) \<and>
      (if is_empty (heap b ! c)
       then c1 = c \<and> length h1 = length (heap b) \<and> parent (h1 ! c) = None
       else c1 = length (heap b) \<and> length h1 = length (heap b) + 1 \<and>
            h1 ! c = (heap b ! c)\<lparr>replies := replies (heap b ! c) @ [length (heap b)]\<rparr> \<and>
            h1 ! c1 = \<lparr> role = r, content = t, attrs = [], replies = [], parent = Some c \<rparr>) \<and>
      (r \<noteq> VStr ''empty'' \<or> t \<noteq> VStr '''' \<longrightarrow> h1 \<noteq> heap b)"
    by blast
  have fail: "\<forall>e s2 h2. send (mstate b) h1 c1 = (Inl e, s2, h2) \<longrightarrow>
         cvsn_respond send b (Some t) r =
           (Inl e, \<lparr> heap = h2, conversation = Some c1, mstate = s2 \<rparr>)"
    using a h1 by (simp add: cvsn_respond_def)
  have ok: "\<forall>txt rl extra s2 h2 h3 c3.
         send (mstate b) h1 c1 = (Inr (txt, rl, extra), s2, h2) \<and> ordinary_node (h2 ! c1) \<and>
         ''content'' \<notin> fst ` set extra \<and> ''role'' \<notin> fst ` set extra \<and>
         add_reply h2 c1 ([(''content'', VStr txt), (''role'', VStr rl)] @ extra) = Inr (h3, c3) \<longrightarrow>
         cvsn_respond send b (Some t) r =
           (Inr (txt, c3), \<lparr> heap = h3, conversation = Some c3, mstate = s2 \<rparr>)"
    using a h1 by (simp add: cvsn_respond_def)
  show "\<exists>h1 c1. add_reply (heap b) c [(''content'', t), (''role'', r)] = Inr (h1, c1) \<and>
      c1 < length h1 \<and>
      role (h1 ! c1) = r \<and> content (h1 ! c1) = t \<and> replies (h1 ! c1) = [] \<and>
      (\<forall>a < length (heap b). a \<noteq> c \<longrightarrow> h1 ! a = heap b ! a) \<and>
      (if is_empty (heap b ! c)
       then c1 = c \<and> length h1 = length (heap b) \<and> parent (h1 ! c) = None
       else c1 = length (heap b) \<and> length h1 = length (heap b) + 1 \<and>
            h1 ! c = (heap b ! c)\<lparr>replies := replies (heap b ! c) @ [length (heap b)]\<rparr> \<and>
            h1 ! c1 = \<lparr> role = r, content = t, attrs = [], replies = [], parent = Some c \<rparr>) \<and>
      (r \<noteq> VStr ''empty'' \<or> t \<noteq> VStr '''' \<longrightarrow> h1 \<noteq> heap b) \<and>
      (\<forall>e s2 h2. send (mstate b) h1 c1 = (Inl e, s2, h2) \<longrightarrow>
         cvsn_respond send b (Some t) r =
           (Inl e, \<lparr> heap = h2, conversation = Some c1, mstate = s2 \<rparr>)) \<and>
      (\<forall>txt rl extra s2 h2 h3 c3.
         send (mstate b) h1 c1 = (Inr (txt, rl, extra), s2, h2) \<and> ordinary_node (h2 ! c1) \<and>
         ''content'' \<notin> fst ` set extra \<and> ''role'' \<notin> fst ` set extra \<and>
         add_reply h2 c1 ([(''content'', VStr txt), (''role'', VStr rl)] @ extra) = Inr (h3, c3) \<longrightarrow>
         cvsn_respond send b (Some t) r =
           (Inr (txt, c3), \<lparr> heap = h3, conversation = Some c3, mstate = s2 \<rparr>))"
    using h1 props fail ok by blast
qed

lemma ex_failed_respond:
  "cvsn_respond failing_send ex_bot (Some (VStr ''and now?'')) (VStr ''user'') =
     (Inl (OtherError ''fatal''), \<lparr> heap = ex_heap_turn, conversation = Some 3, mstate = 1 \<rparr>)"
  by (simp add: cvsn_respond_def failing_send_def ex_bot_def ex_heap_def ex_heap_turn_def
      add_reply_def init_node_def ordinary_defs is_empty_def AList.delete_eq)

theorem failed_send_leaves_new_turn_witness:
  "conversation new_bot = Some 0 \<and> (0::nat) < length (heap new_bot) \<and> is_empty (heap new_bot ! 0) \<and>
   ordinary_node (heap new_bot ! 0) \<and> ordinary_node (first_turn_heap ! 0) \<and>
   add_reply (heap new_bot) 0 [(''content'', VStr ''hello''), (''role'', VStr ''user'')]
     = Inr (first_turn_heap, 0) \<and>
   first_turn_heap \<noteq> heap new_bot \<and>
   failing_send (mstate new_bot) first_turn_heap 0 = (Inl (OtherError ''fatal''), 1, first_turn_heap) \<and>
   cvsn_respond failing_send new_bot (Some (VStr ''hello'')) (VStr ''user'') =
     (Inl (OtherError ''fatal''), \<lparr> heap = first_turn_heap, conversation = Some 0, mstate = 1 \<rparr>) \<and>
   replying_send (mstate new_bot) first_turn_heap 0
     = (Inr (''hi'', ''assistant'', [(''tokens'', VInt 3)]), 1, first_turn_heap) \<and>
   add_reply first_turn_heap 0
       ([(''content'', VStr ''hi''), (''role'', VStr ''assistant'')] @ [(''tokens'', VInt 3)])
     = Inr (replied_heap, 1) \<and>
   cvsn_respond replying_send new_bot (Some (VStr ''hello'')) (VStr ''user'') =
     (Inr (''hi'', 1), \<lparr> heap = replied_heap, conversation = Some 1, mstate = 1 \<rparr>) \<and>
   conversation ex_bot = Some 2 \<and> (2::nat) < length (heap ex_bot) \<and> \<not> is_empty (heap ex_bot ! 2) \<and>
   ordinary_node (heap ex_bot ! 2) \<and>
   add_reply (heap ex_bot) 2 [(''content'', VStr ''and now?''), (''role'', VStr ''user'')]
     = Inr (ex_heap_turn, 3) \<and>
   failing_send (mstate ex_bot) ex_heap_turn 3 = (Inl (OtherError ''fatal''), 1, ex_heap_turn) \<and>
   cvsn_respond failing_send ex_bot (Some (VStr ''and now?'')) (VStr ''user'') =
     (Inl (OtherError ''fatal''), \<lparr> heap = ex_heap_turn, conversation = Some 3, mstate = 1 \<rparr>)"
proof -
  have n1: "conversation new_bot = Some 0 \<and> (0::nat) < length (heap new_bot) \<and>
      is_empty (heap new_bot ! 0)"
    by (simp add: new_bot_def create_empty_def is_empty_def)
  have n0: "ordinary_node (heap new_bot ! 0) \<and> ordinary_node (first_turn_heap ! 0)"
    by (simp add: new_bot_def create_empty_def first_turn_heap_def ordinary_node_def)
  have e0: "ordinary_node (heap ex_bot ! 2)"
    by (simp add: ex_bot_def ex_heap_def ordinary_node_def)
  have n2: "add_reply (heap new_bot) 0 [(''content'', VStr ''hello''), (''role'', VStr ''user'')]
     = Inr (first_turn_heap, 0)"
    by (simp add: new_bot_def first_turn_heap_def create_empty_def add_reply_def init_node_def
        ordinary_defs is_empty_def AList.delete_eq)
  have n3: "failing_send (mstate new_bot) first_turn_heap 0
      = (Inl (OtherError ''fatal''), 1, first_turn_heap)"
    by (simp add: failing_send_def new_bot_def)
  have n4: "replying_send (mstate new_bot) first_turn_heap 0
     = (Inr (''hi'', ''assistant'', [(''tokens'', VInt 3)]), 1, first_turn_heap)"
    by (simp add: replying_send_def new_bot_def)
  have n5: "add_reply first_turn_heap 0
       ([(''content'', VStr ''hi''), (''role'', VStr ''assistant'')] @ [(''tokens'', VInt 3)])
     = Inr (replied_heap, 1)"
    by (simp add: first_turn_heap_def replied_heap_def add_reply_def init_node_def
        ordinary_defs is_empty_def AList.delete_eq)
  have n6: "''content'' \<notin> fst ` set [(''tokens'', VInt 3)] \<and> ''role'' \<notin> fst ` set [(''tokens'', VInt 3)]"
    by simp
  have n7: "VStr ''user'' \<noteq> VStr ''empty'' \<or> VStr ''hello'' \<noteq> VStr ''''" by simp
  from failed_send_leaves_new_turn[of new_bot 0 "VStr ''hello''" "VStr ''user''" failing_send]
    n0 n1 n2 n3 n7
  have a: "cvsn_respond failing_send new_bot (Some (VStr ''hello'')) (VStr ''user'') =
     (Inl (OtherError ''fatal''), \<lparr> heap = first_turn_heap, conversation = Some 0, mstate = 1 \<rparr>)"
    and a': "first_turn_heap \<noteq> heap new_bot"
    by auto
  from failed_send_leaves_new_turn[of new_bot 0 "VStr ''hello''" "VStr ''user''" replying_send]
    n0 n1 n2 n4 n5 n6
  have b: "cvsn_respond replying_send new_bot (Some (VStr ''hello'')) (VStr ''user'') =
     (Inr (''hi'', 1), \<lparr> heap = replied_heap, conversation = Some 1, mstate = 1 \<rparr>)"
    by auto
  have 1: "conversation ex_bot = Some 2 \<and> (2::nat) < length (heap ex_bot) \<and> \<not> is_empty (heap ex_bot ! 2)"
    by (simp add: ex_bot_def ex_heap_def is_empty_def)
  have 2: "add_reply (heap ex_bot) 2 [(''content'', VStr ''and now?''), (''role'', VStr ''user'')]
     = Inr (ex_heap_turn, 3)"
    by (simp add: ex_bot_def ex_heap_def ex_heap_turn_def add_reply_def init_node_def ordinary_defs
        is_empty_def AList.delete_eq)
  have 3: "failing_send (mstate ex_bot) ex_heap_turn 3 = (Inl (OtherError ''fatal''), 1, ex_heap_turn)"
    by (simp add: failing_send_def ex_bot_def)
  from failed_send_leaves_new_turn[of ex_bot 2 "VStr ''and now?''" "VStr ''user''" failing_send] e0 1 2 3
  have c: "cvsn_respond failing_send ex_bot (Some (VStr ''and now?'')) (VStr ''user'') =
     (Inl (OtherError ''fatal''), \<lparr> heap = ex_heap_turn, conversation = Some 3, mstate = 1 \<rparr>)"
    by auto
  show ?thesis
    using n0 e0 n1 n2 n3 n4 n5 a a' b 1 2 3 c by blast
qed

text \<open>
  Claim C6 as stated fails: after a respond call whose transport fails with a fatal error
  the tree has a fourth node, the new user turn, and the current node is that node.
\<close>

theorem failed_send_tree_changed_counterexample:
  "cvsn_respond failing_send ex_bot (Some (VStr ''and now?'')) (VStr ''user'') =
     (Inl (OtherError ''fatal''), \<lparr> heap = ex_heap_turn, conversation = Some 3, mstate = 1 \<rparr>) \<and>
   heap ex_bot = ex_heap \<and> conversation ex_bot = Some 2 \<and>
   length ex_heap = 3 \<and> length ex_heap_turn = 4 \<and> ex_heap_turn \<noteq> ex_heap \<and>
   replies (ex_heap ! 2) = [] \<and> replies (ex_heap_turn ! 2) = [3]"
  using ex_failed_respond by (simp add: ex_bot_def ex_heap_def ex_heap_turn_def)

subsection \<open>The serialised fields and \<open>__init__\<close>\<close>

lemma map_of_filter_key: "map_of xs k = map_of (filter (\<lambda>y. fst y = k) xs) k"
  by (induction xs) auto

lemma map_of_sort_key: "map_of (sort_key fst xs) = map_of xs"
proof
  fix k
  have "map_of (sort_key fst xs) k = map_of (filter (\<lambda>y. fst y = k) (sort_key fst xs)) k"
    by (rule map_of_filter_key)
  also have "\<dots> = map_of (filter (\<lambda>y. fst y = k) xs) k"
    by (simp only: sort_key_stable)
  also have "\<dots> = map_of xs k" by (rule map_of_filter_key[symmetric])
  finally show "map_of (sort_key fst xs) k = map_of xs k" .
qed

lemma distinct_map_sort_key: "distinct (map f (sort_key f xs)) = distinct (map f xs)"
  by (induction xs) (auto simp: distinct_insort_key)

lemma update_fresh: "k \<notin> fst ` set al \<Longrightarrow> AList.update k v al = al @ [(k, v)]"
  by (induction al) auto

lemma setattrs_fresh:
  "distinct (map fst kw) \<Longrightarrow> fst ` set kw \<inter> fst ` set al = {} \<Longrightarrow> setattrs kw al = al @ kw"
proof (induction kw arbitrary: al)
  case Nil
  then show ?case by simp
next
  case (Cons x kw)
  obtain k v where x: "x = (k, v)" by (cases x)
  from Cons.prems x have k: "k \<notin> fst ` set al" by auto
  have "setattrs (x # kw) al = setattrs kw (al @ [(k, v)])"
    using x k by (simp add: update_fresh)
  also have "\<dots> = (al @ [(k, v)]) @ kw"
    using Cons.prems x by (intro Cons.IH) auto
  finally show ?case using x by simp
qed

lemma init_node_serialised:
  assumes "\<not> callable r" and "\<not> callable c" and "distinct (map fst al)"
    and "list_all (\<lambda>k. k \<notin> {''content'', ''role'', ''replies'', ''parent''}) (map fst al)"
    and "list_all ordinary_name (map fst al)"
  shows "init_node [] (sort_key fst (filter public ((''content'', c) # (''role'', r) # al)))
     = Inr \<lparr> role = r, content = c, attrs = sort_key fst (filter public al),
             replies = [], parent = None \<rparr>"
proof -
  let ?fields = "filter public ((''content'', c) # (''role'', r) # al)"
  let ?P = "\<lambda>(k, v). k \<noteq> ''content'' \<and> k \<noteq> ''role''"
  have keys: "\<And>k v. (k, v) \<in> set al \<Longrightarrow>
      k \<noteq> ''content'' \<and> k \<noteq> ''role'' \<and> k \<noteq> ''replies'' \<and> k \<noteq> ''parent''"
    using assms(4) by (force simp: list_all_iff)
  have pc: "public (''content'', c)" "public (''role'', r)"
    using assms(1,2) by (simp_all add: public_def)
  have c: "map_of (sort_key fst ?fields) ''content'' = Some c"
    unfolding map_of_sort_key using pc by simp
  have r: "map_of (sort_key fst ?fields) ''role'' = Some r"
    unfolding map_of_sort_key using pc by simp
  have "filter ?P ?fields = filter public al"
  proof -
    have "filter ?P (filter public al) = filter public al"
      using keys by (intro filter_True) auto
    then show ?thesis using pc by simp
  qed
  then have rest: "filter ?P (sort_key fst ?fields) = sort_key fst (filter public al)"
    by (simp only: filter_sort)
  have d: "distinct (map fst (sort_key fst (filter public al)))"
    using assms(3) by (simp add: distinct_map_sort_key distinct_map_filter)
  have s: "setattrs (sort_key fst (filter public al)) [] = sort_key fst (filter public al)"
    using setattrs_fresh[OF d, of "[]"] by simp
  have k2: "''replies'' \<notin> fst ` set (sort_key fst (filter public al))"
    "''parent'' \<notin> fst ` set (sort_key fst (filter public al))"
  proof -
    have "\<And>k. k \<in> fst ` set (sort_key fst (filter public al)) \<Longrightarrow> k \<noteq> ''replies'' \<and> k \<noteq> ''parent''"
    proof -
      fix k assume "k \<in> fst ` set (sort_key fst (filter public al))"
      then obtain v where "(k, v) \<in> set al" by auto
      from keys[OF this] show "k \<noteq> ''replies'' \<and> k \<noteq> ''parent''" by simp
    qed
    then show "''replies'' \<notin> fst ` set (sort_key fst (filter public al))"
      "''parent'' \<notin> fst ` set (sort_key fst (filter public al))" by blast+
  qed
  have okk: "\<And>k. k \<in> fst ` set ?fields \<Longrightarrow> ordinary_name k"
  proof -
    fix k assume "k \<in> fst ` set ?fields"
    then have "k = ''content'' \<or> k = ''role'' \<or> k \<in> set (map fst al)"
      by (auto split: if_splits)
    then show "ordinary_name k"
      using assms(5) by (auto simp: list_all_iff ordinary_name_def method_names_def dunder_def)
  qed
  have ord: "ordinary_kwargs (sort_key fst ?fields)"
    using okk by (simp add: ordinary_kwargs_def list_all_iff)
  have self: "''self'' \<notin> fst ` set (sort_key fst ?fields)"
  proof
    assume "''self'' \<in> fst ` set (sort_key fst ?fields)"
    then have "''self'' \<in> fst ` set ?fields" by simp
    from okk[OF this] show False by (simp add: ordinary_name_def)
  qed
  show ?thesis
    unfolding init_node_def c r rest s using k2 ord self by simp
qed

lemma serialised_no_replies:
  assumes "list_all (\<lambda>k. k \<notin> {''content'', ''role'', ''replies'', ''parent''}) (map fst al)"
  shows "map_of (sort_key fst (filter public ((''content'', c) # (''role'', r) # al))) ''replies'' = None"
    and "filter (\<lambda>(k, v). k \<noteq> ''replies'') (sort_key fst (filter public ((''content'', c) # (''role'', r) # al)))
       = sort_key fst (filter public ((''content'', c) # (''role'', r) # al))"
proof -
  let ?fields = "filter public ((''content'', c) # (''role'', r) # al)"
  have al: "\<And>k v. (k, v) \<in> set al \<Longrightarrow> k \<noteq> ''replies''"
    using assms by (force simp: list_all_iff)
  have keys: "''replies'' \<notin> fst ` set ?fields"
  proof
    assume "''replies'' \<in> fst ` set ?fields"
    then obtain v where "(''replies'', v) \<in> set ?fields" by force
    then have "(''replies'', v) \<in> set al" by (auto split: if_splits)
    from al[OF this] show False by simp
  qed
  then show "map_of (sort_key fst ?fields) ''replies'' = None"
    unfolding map_of_sort_key by (simp only: map_of_eq_None_iff) simp
  have "\<forall>x \<in> set (sort_key fst ?fields). (\<lambda>(k, v). k \<noteq> ''replies'') x"
  proof
    fix x assume x: "x \<in> set (sort_key fst ?fields)"
    then have "fst x \<in> fst ` set ?fields" by simp
    with keys have "fst x \<noteq> ''replies''" by metis
    then show "(\<lambda>(k, v). k \<noteq> ''replies'') x" by (cases x) simp
  qed
  then show "filter (\<lambda>(k, v). k \<noteq> ''replies'') (sort_key fst ?fields) = sort_key fst ?fields"
    by (intro filter_True) 
qed

declare from_dict.simps [simp del]

subsection \<open>Serialising a tree\<close>

lemma height_le_foldr_max: "t \<in> set ts \<Longrightarrow> height t \<le> foldr max (map height ts) 0"
  by (induction ts) auto

lemma repr_list_Nil_iff: "repr_list h a [] ts = (ts = [])"
  by (cases ts) auto

lemma repr_list_Nil2_iff: "repr_list h a bs [] = (bs = [])"
  by (cases bs) auto

lemma to_dict_repr:
  "repr h p a t \<Longrightarrow> height t \<le> fuel \<Longrightarrow> to_dict_recursive fuel h a = Some (dict_of t)"
  "repr_list h a bs ts \<Longrightarrow> (\<forall>t \<in> set ts. height t \<le> fuel) \<Longrightarrow>
     those (map (to_dict_recursive fuel h) bs) = Some (map dict_of ts)"
proof (induction h p a t and h a bs ts arbitrary: fuel and fuel rule: repr_repr_list.induct)
  case (1 h p a r c al ts)
  from "1.prems"(2) obtain f where f: "fuel = Suc f" "foldr max (map height ts) 0 \<le> f"
    by (cases fuel) auto
  have hs: "\<forall>t \<in> set ts. height t \<le> f"
  proof
    fix t assume "t \<in> set ts"
    from height_le_foldr_max[OF this] f(2) show "height t \<le> f" by simp
  qed
  from "1.prems"(1) have rl: "repr_list h a (replies (h ! a)) ts"
    and fields: "role (h ! a) = r" "content (h ! a) = c" "attrs (h ! a) = al" by simp_all
  have self: "to_dict_self (h ! a) = sort_key fst (filter public ((''content'', c) # (''role'', r) # al))"
    by (simp only: to_dict_self_def fields)
  show ?case
  proof (cases "replies (h ! a) = []")
    case True
    with rl have "ts = []" by (simp add: repr_list_Nil_iff)
    with True self f show ?thesis by simp
  next
    case False
    with rl have ne: "ts \<noteq> []" by (auto simp: repr_list_Nil2_iff)
    from "1.IH"[OF rl hs] have "those (map (to_dict_recursive f h) (replies (h ! a))) = Some (map dict_of ts)" .
    with False ne self f show ?thesis by simp
  qed
next
  case (2 h a)
  then show ?case by simp
next
  case (3 h a b bs t ts)
  from "3.prems" have "repr h (Some a) b t" "repr_list h a bs ts" "height t \<le> fuel"
    "\<forall>t \<in> set ts. height t \<le> fuel" by simp_all
  with "3.IH" show ?case by simp
next
  case (4 h a t ts)
  then show ?case by simp
next
  case (5 h a b bs)
  then show ?case by simp
qed

subsection \<open>What a subtree depends on\<close>

lemma repr_frame:
  "repr h p a t \<Longrightarrow> length h \<le> length h' \<Longrightarrow> (\<forall>b. a \<le> b \<and> b < length h \<longrightarrow> h' ! b = h ! b) \<Longrightarrow>
     repr h' p a t"
  "repr_list h a bs ts \<Longrightarrow> length h \<le> length h' \<Longrightarrow> (\<forall>b. a < b \<and> b < length h \<longrightarrow> h' ! b = h ! b) \<Longrightarrow>
     repr_list h' a bs ts"
proof (induction h p a t and h a bs ts rule: repr_repr_list.induct)
  case (1 h p a r c al ts)
  note fr = "1.prems"(3)[rule_format]
  from "1.prems"(1) have a: "a < length h" and f: "role (h ! a) = r" "content (h ! a) = c"
    "attrs (h ! a) = al" "parent (h ! a) = p" and rl: "repr_list h a (replies (h ! a)) ts"
    by simp_all
  have eq: "h' ! a = h ! a" using fr[of a] a by simp
  have fr2: "\<forall>b. a < b \<and> b < length h \<longrightarrow> h' ! b = h ! b"
    using fr by simp
  have "repr_list h' a (replies (h ! a)) ts"
    by (rule "1.IH"[OF rl "1.prems"(2) fr2])
  moreover have "a < length h'" using a "1.prems"(2) by simp
  ultimately show ?case using f by (simp add: eq)
next
  case (3 h a b bs t ts)
  note fr = "3.prems"(3)[rule_format]
  from "3.prems"(1) have ab: "a < b" and r: "repr h (Some a) b t" and rl: "repr_list h a bs ts"
    by simp_all
  have fr1: "\<forall>c. b \<le> c \<and> c < length h \<longrightarrow> h' ! c = h ! c"
    using fr ab by simp
  have "repr h' (Some a) b t" by (rule "3.IH"(1)[OF r "3.prems"(2) fr1])
  moreover have "repr_list h' a bs ts" by (rule "3.IH"(2)[OF rl "3.prems"(2) "3.prems"(3)])
  ultimately show ?case using ab by simp
qed simp_all

lemma repr_reparent:
  assumes "repr h p a t" and "length h' = length h"
    and "\<forall>b. a < b \<and> b < length h \<longrightarrow> h' ! b = h ! b"
    and "h' ! a = (h ! a)\<lparr>parent := q\<rparr>"
  shows "repr h' q a t"
proof (cases t)
  case (Tree r c al ts)
  with assms(1) have a: "a < length h" and f: "role (h ! a) = r" "content (h ! a) = c"
    "attrs (h ! a) = al" and rl: "repr_list h a (replies (h ! a)) ts" by simp_all
  have le: "length h \<le> length h'" using assms(2) by simp
  have "repr_list h' a (replies (h ! a)) ts"
    by (rule repr_frame(2)[OF rl le assms(3)])
  then show ?thesis using a f assms(2) Tree by (simp add: assms(4))
qed

lemma repr_list_snoc:
  "repr_list h a bs ts \<Longrightarrow> a < b \<Longrightarrow> repr h (Some a) b t \<Longrightarrow> repr_list h a (bs @ [b]) (ts @ [t])"
proof (induction bs arbitrary: ts)
  case Nil
  then show ?case by (cases ts) simp_all
next
  case (Cons x bs)
  show ?case
  proof (cases ts)
    case Nil
    with Cons.prems show ?thesis by simp
  next
    case (Cons u us)
    with Cons.prems have "a < x" "repr h (Some a) x u" "repr_list h a bs us" by simp_all
    with Cons.IH[of us] Cons.prems(2,3) Cons show ?thesis by simp
  qed
qed

subsection \<open>Rebuilding a tree\<close>

lemma from_dict_replies_ok:
  assumes elems: "\<And>t h0. t \<in> set ts \<Longrightarrow> wf_tree t \<Longrightarrow>
      \<exists>h'. from_dict (dict_of t) h0 = Inr (h', length h0) \<and> length h0 < length h' \<and>
           (\<forall>b < length h0. h' ! b = h0 ! b) \<and> repr h' None (length h0) (rebuilt t)"
    and wf: "list_all wf_tree ts" and node: "node < length h"
    and old: "repr_list h node (replies (h ! node)) old"
  shows "\<exists>h'. from_dict_replies (map dict_of ts) node h = Inr h' \<and> length h \<le> length h' \<and>
      (\<forall>b < length h. b \<noteq> node \<longrightarrow> h' ! b = h ! b) \<and>
      role (h' ! node) = role (h ! node) \<and> content (h' ! node) = content (h ! node) \<and>
      attrs (h' ! node) = attrs (h ! node) \<and> parent (h' ! node) = parent (h ! node) \<and>
      repr_list h' node (replies (h' ! node)) (old @ map rebuilt ts)"
  using assms
proof (induction ts arbitrary: h old)
  case Nil
  then show ?case by simp
next
  case (Cons t ts)
  let ?r = "length h"
  from Cons.prems(2) have wft: "wf_tree t" and wfs: "list_all wf_tree ts" by simp_all
  from Cons.prems(1)[of t h] wft obtain h1 where
    fd: "from_dict (dict_of t) h = Inr (h1, ?r)" and len1: "?r < length h1"
    and fr1: "\<forall>b < ?r. h1 ! b = h ! b" and rep1: "repr h1 None ?r (rebuilt t)"
    by auto
  define h2 where "h2 = h1[?r := (h1 ! ?r)\<lparr>parent := Some node\<rparr>,
      node := (h1 ! node)\<lparr>replies := replies (h1 ! node) @ [?r]\<rparr>]"
  have nr: "node < ?r" by (rule Cons.prems(3))
  have h1node: "h1 ! node = h ! node" using fr1 nr by simp
  have len2: "length h2 = length h1" by (simp add: h2_def)
  have h2node: "h2 ! node = (h ! node)\<lparr>replies := replies (h ! node) @ [?r]\<rparr>"
    using nr len1 h1node by (simp add: h2_def)
  have h2r: "h2 ! ?r = (h1 ! ?r)\<lparr>parent := Some node\<rparr>"
    using nr len1 by (simp add: h2_def)
  have h2other: "\<And>b. b \<noteq> ?r \<Longrightarrow> b \<noteq> node \<Longrightarrow> h2 ! b = h1 ! b"
    by (simp add: h2_def)
  have "\<forall>b. ?r < b \<and> b < length h1 \<longrightarrow> h2 ! b = h1 ! b"
    using h2other nr by simp
  from repr_reparent[OF rep1 len2 this h2r]
  have rep2: "repr h2 (Some node) ?r (rebuilt t)" .
  have "\<forall>b. node < b \<and> b < ?r \<longrightarrow> h2 ! b = h ! b"
    using h2other fr1 by simp
  moreover have "?r \<le> length h2" using len1 len2 by simp
  ultimately have "repr_list h2 node (replies (h ! node)) old"
    using repr_frame(2)[OF Cons.prems(4)] by blast
  from repr_list_snoc[OF this nr rep2]
  have old2: "repr_list h2 node (replies (h2 ! node)) (old @ [rebuilt t])"
    by (simp add: h2node)
  have node2: "node < length h2" using nr len1 len2 by simp
  have elems2: "\<And>t h0. t \<in> set ts \<Longrightarrow> wf_tree t \<Longrightarrow>
      \<exists>h'. from_dict (dict_of t) h0 = Inr (h', length h0) \<and> length h0 < length h' \<and>
           (\<forall>b < length h0. h' ! b = h0 ! b) \<and> repr h' None (length h0) (rebuilt t)"
    using Cons.prems(1) by simp
  from Cons.IH[OF elems2 wfs node2 old2] obtain h' where
    r: "from_dict_replies (map dict_of ts) node h2 = Inr h'" and l: "length h2 \<le> length h'"
    and fr: "\<forall>b < length h2. b \<noteq> node \<longrightarrow> h' ! b = h2 ! b"
    and f: "role (h' ! node) = role (h2 ! node)" "content (h' ! node) = content (h2 ! node)"
      "attrs (h' ! node) = attrs (h2 ! node)" "parent (h' ! node) = parent (h2 ! node)"
    and rl: "repr_list h' node (replies (h' ! node)) ((old @ [rebuilt t]) @ map rebuilt ts)"
    by blast
  have run: "from_dict_replies (map dict_of (t # ts)) node h = Inr h'"
    using fd r by (simp add: h2_def)
  have frame: "\<forall>b < ?r. b \<noteq> node \<longrightarrow> h' ! b = h ! b"
  proof (intro allI impI)
    fix b assume b: "b < ?r" "b \<noteq> node"
    then have "h' ! b = h2 ! b" using fr len1 len2 by simp
    also have "\<dots> = h1 ! b" using b h2other by simp
    also have "\<dots> = h ! b" using b fr1 by simp
    finally show "h' ! b = h ! b" .
  qed
  have "?r \<le> length h'" using l len1 len2 by simp
  with run frame f rl show ?case by (simp add: h2node)
qed

lemma from_dict_rebuilds:
  "wf_tree t \<Longrightarrow>
     \<exists>h'. from_dict (dict_of t) h0 = Inr (h', length h0) \<and> length h0 < length h' \<and>
          (\<forall>b < length h0. h' ! b = h0 ! b) \<and> repr h' None (length h0) (rebuilt t)"
proof (induction t arbitrary: h0)
  case (Tree r c al ts)
  let ?fields = "sort_key fst (filter public ((''content'', c) # (''role'', r) # al))"
  let ?n = "\<lparr> role = r, content = c, attrs = sort_key fst (filter public al),
             replies = [], parent = None \<rparr>"
  from Tree.prems have w: "\<not> callable r" "\<not> callable c" "distinct (map fst al)"
    "list_all (\<lambda>k. k \<notin> {''content'', ''role'', ''replies'', ''parent''}) (map fst al)"
    "list_all ordinary_name (map fst al)"
    and wfs: "list_all wf_tree ts" by simp_all
  have init: "init_node [] ?fields = Inr ?n" by (rule init_node_serialised[OF w])
  show ?case
  proof (cases "ts = []")
    case True
    have d: "dict_of (Tree r c al ts) = VDict ?fields"
      using True by (simp only: dict_of.simps refl if_True append_Nil2)
    have "from_dict (VDict ?fields) h0 = Inr (h0 @ [?n], length h0)"
      by (subst from_dict.simps)
         (simp only: val.case serialised_no_replies[OF w(4)] init sum.case option.case)
    then have "from_dict (dict_of (Tree r c al ts)) h0 = Inr (h0 @ [?n], length h0)"
      by (simp only: d)
    moreover have "repr (h0 @ [?n]) None (length h0) (rebuilt (Tree r c al ts))"
      using True by simp
    ultimately show ?thesis by (intro exI[of _ "h0 @ [?n]"]) (simp add: nth_append)
  next
    case False
    let ?kvs = "?fields @ [(''replies'', VList (map dict_of ts))]"
    have d: "dict_of (Tree r c al ts) = VDict ?kvs"
      using False by (simp only: dict_of.simps if_False)
    have flt: "filter (\<lambda>(k, v). k \<noteq> ''replies'') ?kvs = ?fields"
      by (simp only: filter_append serialised_no_replies(2)[OF w(4)]) simp
    have look: "map_of ?kvs ''replies'' = Some (VList (map dict_of ts))"
      by (simp only: map_of_append map_add_def serialised_no_replies(1)[OF w(4)]) simp
    have "from_dict (VDict ?kvs) h0 =
        (case from_dict_replies (map dict_of ts) (length h0) (h0 @ [?n]) of
           Inl e \<Rightarrow> Inl e | Inr h2 \<Rightarrow> Inr (h2, length h0))"
      by (subst from_dict.simps)
         (simp only: val.case flt look init sum.case option.case)
    then have step: "from_dict (dict_of (Tree r c al ts)) h0 =
        (case from_dict_replies (map dict_of ts) (length h0) (h0 @ [?n]) of
           Inl e \<Rightarrow> Inl e | Inr h2 \<Rightarrow> Inr (h2, length h0))"
      by (simp only: d)
    have elems: "\<And>t h0. t \<in> set ts \<Longrightarrow> wf_tree t \<Longrightarrow>
      \<exists>h'. from_dict (dict_of t) h0 = Inr (h', length h0) \<and> length h0 < length h' \<and>
           (\<forall>b < length h0. h' ! b = h0 ! b) \<and> repr h' None (length h0) (rebuilt t)"
      using Tree.IH by blast
    have node: "length h0 < length (h0 @ [?n])" by simp
    have old: "repr_list (h0 @ [?n]) (length h0) (replies ((h0 @ [?n]) ! length h0)) []" by simp
    from from_dict_replies_ok[OF elems wfs node old] obtain h' where
      r: "from_dict_replies (map dict_of ts) (length h0) (h0 @ [?n]) = Inr h'"
      and l: "length (h0 @ [?n]) \<le> length h'"
      and fr: "\<forall>b < length (h0 @ [?n]). b \<noteq> length h0 \<longrightarrow> h' ! b = (h0 @ [?n]) ! b"
      and f: "role (h' ! length h0) = role ((h0 @ [?n]) ! length h0)"
        "content (h' ! length h0) = content ((h0 @ [?n]) ! length h0)"
        "attrs (h' ! length h0) = attrs ((h0 @ [?n]) ! length h0)"
        "parent (h' ! length h0) = parent ((h0 @ [?n]) ! length h0)"
      and rl: "repr_list h' (length h0) (replies (h' ! length h0)) ([] @ map rebuilt ts)"
      by blast
    have "from_dict (dict_of (Tree r c al ts)) h0 = Inr (h', length h0)"
      using step r by simp
    moreover have "length h0 < length h'" using l by simp
    moreover have "\<forall>b < length h0. h' ! b = h0 ! b"
      using fr by (simp add: nth_append)
    moreover have "repr h' None (length h0) (rebuilt (Tree r c al ts))"
      using f rl l by simp
    ultimately show ?thesis by blast
  qed
qed

lemma find_root_simps:
  "parent (h ! a) = None \<Longrightarrow> find_root h a = Some a"
  "parent (h ! a) = Some p \<Longrightarrow> find_root h a = find_root h p"
  by (subst find_root.simps, simp)+

lemma same_data_list_map:
  "(\<And>t. t \<in> set ts \<Longrightarrow> same_data (f t) (g t)) \<Longrightarrow> same_data_list (map f ts) (map g ts)"
  by (induction ts) simp_all

lemma rebuilt_same_data: "same_data (rebuilt t) (public_only t)"
proof (induction t)
  case (Tree r c al ts)
  then show ?case by (simp add: map_of_sort_key same_data_list_map)
qed

subsection \<open>The root of a node of the tree\<close>

lemma repr_list_member:
  "repr_list h a bs ts \<Longrightarrow> b \<in> set bs \<Longrightarrow> \<exists>t. repr h (Some a) b t"
proof (induction bs arbitrary: ts)
  case Nil
  then show ?case by simp
next
  case (Cons x bs)
  then obtain t ts' where ts: "ts = t # ts'" by (cases ts) auto
  with Cons show ?case by auto
qed

lemma repr_reply_parent:
  assumes "repr h q a t" and "b \<in> set (replies (h ! a))"
  shows "\<exists>t'. repr h (Some a) b t'"
proof -
  obtain r c al ts where t: "t = Tree r c al ts" by (cases t)
  with assms(1) have "repr_list h a (replies (h ! a)) ts" by simp
  from repr_list_member[OF this assms(2)] show ?thesis .
qed

lemma path_find_root:
  "is_path h p \<Longrightarrow> \<exists>q t. repr h q (hd p) t \<Longrightarrow> find_root h (last p) = find_root h (hd p)"
proof (induction h p rule: is_path.induct)
  case (1 h)
  then show ?case by simp
next
  case (2 h a)
  then show ?case by simp
next
  case (3 h a b p)
  from "3.prems"(1) have b: "b \<in> set (replies (h ! a))" and rest: "is_path h (b # p)" by simp_all
  from "3.prems"(2) obtain q t where "repr h q a t" by auto
  from repr_reply_parent[OF this b] obtain t' where t': "repr h (Some a) b t'" by blast
  then have par: "parent (h ! b) = Some a" by (cases t') simp
  from t' have "\<exists>q t. repr h q (hd (b # p)) t" by auto
  from "3.IH"[OF rest this] have "find_root h (last (b # p)) = find_root h b" by simp
  then show ?case using find_root_simps(2)[OF par] by simp
qed

lemma tree_find_root:
  assumes "repr h None root t" and "is_path h p" and "hd p = root" and "last p = a"
  shows "find_root h a = Some root"
proof -
  from assms(1) have "parent (h ! root) = None" by (cases t) simp
  then have "find_root h root = Some root" by (rule find_root_simps(1))
  moreover have "find_root h (last p) = find_root h (hd p)"
    using path_find_root[OF assms(2)] assms(1,3) by blast
  ultimately show ?thesis using assms(3,4) by simp
qed

subsection \<open>The round trip\<close>

text \<open>
  Claim C8, as amended. Let the heap hold at \<open>root\<close>, a node without parent, a tree
  \<open>t\<close> of plain data whose extra attributes have ordinary names, and let \<open>a\<close> be any
  node of that tree: the last node of a path \<open>p\<close> that starts at \<open>root\<close> and follows
  \<open>replies\<close> links. Then \<open>find_root\<close> on \<open>a\<close> returns, and returns \<open>root\<close>;
  \<open>root_dict\<close> on \<open>a\<close> returns the portable
  form of \<open>t\<close> (whenever the recursion is allowed the height of the tree), and
  \<open>from_dict\<close> of that form, on any heap, returns a new node, leaves the existing
  nodes alone, and the new node is the root of the tree \<open>rebuilt t\<close>: the structure with
  the order of the replies, the role and the content of every node are those of \<open>t\<close>,
  every node refers to its parent again (the root to none), and the extra attributes are
  those of \<open>t\<close> that are public, with their values; the attributes whose name starts with
  an underscore and the callables are not there.
\<close>

theorem serialize_deserialize_round_trip:
  "repr h None root t \<and> wf_tree t \<and> is_path h p \<and> hd p = root \<and> last p = a \<longrightarrow>
     find_root h a = Some root \<and>
     (\<forall>fuel. height t \<le> fuel \<longrightarrow> root_dict fuel h a = Some (dict_of t)) \<and>
     (\<exists>h'. from_dict (dict_of t) h0 = Inr (h', length h0) \<and>
           (\<forall>b < length h0. h' ! b = h0 ! b) \<and>
           repr h' None (length h0) (rebuilt t)) \<and>
     same_data (rebuilt t) (public_only t)"
proof (intro impI conjI allI)
  assume a: "repr h None root t \<and> wf_tree t \<and> is_path h p \<and> hd p = root \<and> last p = a"
  then show "find_root h a = Some root" using tree_find_root by blast
  show "same_data (rebuilt t) (public_only t)" by (rule rebuilt_same_data)
  from a from_dict_rebuilds[of t h0]
  show "\<exists>h'. from_dict (dict_of t) h0 = Inr (h', length h0) \<and>
           (\<forall>b < length h0. h' ! b = h0 ! b) \<and>
           repr h' None (length h0) (rebuilt t)" by blast
next
  fix fuel
  assume a: "repr h None root t \<and> wf_tree t \<and> is_path h p \<and> hd p = root \<and> last p = a"
    and f: "height t \<le> fuel"
  from a have r: "repr h None root t" by simp
  from a have fr: "find_root h a = Some root" using tree_find_root by blast
  from to_dict_repr(1)[OF r f] fr show "root_dict fuel h a = Some (dict_of t)"
    by (simp add: root_dict_def)
qed

lemma rt_repr: "repr rt_heap None 0 rt_tree"
  by (simp add: rt_heap_def rt_tree_def)

lemma rt_wf: "wf_tree rt_tree"
  by (simp add: rt_tree_def ordinary_name_def method_names_def dunder_def)

lemma rt_path: "is_path rt_heap [0, 2] \<and> hd [0, 2] = (0::nat) \<and> last [0, 2] = (2::nat)"
  by (simp add: rt_heap_def)

theorem serialize_deserialize_round_trip_witness:
  "repr rt_heap None 0 rt_tree \<and> wf_tree rt_tree \<and>
   is_path rt_heap [0, 2] \<and> hd [0, 2] = (0::nat) \<and> last [0, 2] = (2::nat) \<and>
   find_root rt_heap 2 = Some 0 \<and>
   height rt_tree \<le> 2 \<and> root_dict 2 rt_heap 2 = Some (dict_of rt_tree) \<and>
   (\<exists>h'. from_dict (dict_of rt_tree) [] = Inr (h', length ([] :: heap)) \<and>
         repr h' None (length ([] :: heap)) (rebuilt rt_tree)) \<and>
   rebuilt rt_tree =
     Tree (VStr ''user'') (VStr ''hello'') [(''tokens'', VInt 3)]
       [Tree (VStr ''assistant'') (VStr ''hi there'') [] [],
        Tree (VStr ''assistant'') (VList [text_seg ''hey'']) [(''stop'', VStr ''end_turn'')] []]"
proof -
  have h: "height rt_tree \<le> 2" by (simp add: rt_tree_def)
  have r: "rebuilt rt_tree =
     Tree (VStr ''user'') (VStr ''hello'') [(''tokens'', VInt 3)]
       [Tree (VStr ''assistant'') (VStr ''hi there'') [] [],
        Tree (VStr ''assistant'') (VList [text_seg ''hey'']) [(''stop'', VStr ''end_turn'')] []]"
    by (simp add: rt_tree_def public_def)
  from serialize_deserialize_round_trip[of rt_heap 0 rt_tree "[0, 2]" 2 "[]"] rt_path rt_repr rt_wf h
  have "find_root rt_heap 2 = Some 0"
    and "root_dict 2 rt_heap 2 = Some (dict_of rt_tree)"
    and "\<exists>h'. from_dict (dict_of rt_tree) [] = Inr (h', length ([] :: heap)) \<and>
         repr h' None (length ([] :: heap)) (rebuilt rt_tree)"
    by blast+
  with rt_path rt_repr rt_wf h r show ?thesis by blast
qed

text \<open>
  Claim C8 as stated fails for a plain-data attribute whose name starts with an
  underscore: a node created by \<open>add_reply(content="hello", role="user", _note="draft")\<close>
  is serialised without \<open>_note\<close>, and the node rebuilt from that has no attribute.
\<close>

theorem private_attribute_lost_counterexample:
  "add_reply [create_empty] 0
       [(''content'', VStr ''hello''), (''role'', VStr ''user''), (''_note'', VStr ''draft'')]
     = Inr (note_heap, 0) \<and>
   map_of (attrs (note_heap ! 0)) ''_note'' = Some (VStr ''draft'') \<and>
   root_dict 1 note_heap 0 = Some (VDict [(''content'', VStr ''hello''), (''role'', VStr ''user'')]) \<and>
   from_dict (VDict [(''content'', VStr ''hello''), (''role'', VStr ''user'')]) []
     = Inr ([\<lparr> role = VStr ''user'', content = VStr ''hello'', attrs = [], replies = [], parent = None \<rparr>], 0)"
  by (simp add: add_reply_def init_node_def ordinary_defs is_empty_def create_empty_def note_heap_def
      AList.delete_eq root_dict_def find_root_simps to_dict_self_def public_def
      less_eq_char_def less_char_def from_dict.simps)

subsection \<open>Keys of the saved record\<close>

lemma filter_key_update:
  "Q k \<Longrightarrow> filter (\<lambda>(key, value). Q key) (AList.update k v al)
     = AList.update k v (filter (\<lambda>(key, value). Q key) al)"
  by (induction al) auto

lemma save_ignores_api_key:
  "save to_dict str_of fuel h cn (AList.update ''api_key'' k1 d)
     = save to_dict str_of fuel h cn (AList.update ''api_key'' k2 d)"
proof -
  have f: "\<And>k. filter (\<lambda>(key, value). \<not> startswith_underscore key) (AList.update ''api_key'' k d)
      = AList.update ''api_key'' k (filter (\<lambda>(key, value). \<not> startswith_underscore key) d)"
    by (rule filter_key_update) simp
  have e1: "\<And>k al. map_of (AList.update ''api_key'' k al) ''api_key'' = Some k"
    by (simp add: AList.update_conv')
  have e2: "\<And>k al. AList.delete ''api_key'' (AList.update ''api_key'' k al) = AList.delete ''api_key'' al"
    by (rule AList.delete_update_same)
  have e3: "\<And>k. map_of (AList.update ''api_key'' k d) ''model_engine'' = map_of d ''model_engine''"
    "\<And>k. map_of (AList.update ''api_key'' k d) ''conversation'' = map_of d ''conversation''"
    by (simp_all add: AList.update_conv')
  show ?thesis
    unfolding save_def Let_def f e1 e2 e3 option.case by (rule refl)
qed

lemma save_keys:
  assumes "save to_dict str_of fuel h cn d = Some (Inr record)"
  shows "''api_key'' \<notin> fst ` set record"
proof -
  let ?d0 = "filter (\<lambda>(key, value). \<not> startswith_underscore key) d"
  let ?d2 = "AList.delete ''mailbox'' (AList.delete ''api_key'' ?d0)"
  have base: "''api_key'' \<notin> fst ` set ?d2"
    using AList.delete_notin_dom[of "''api_key''" ?d0]
      AList.dom_delete_subset[of "''mailbox''" "AList.delete ''api_key'' ?d0"] by blast
  have up: "\<And>k v al. k \<noteq> ''api_key'' \<Longrightarrow> ''api_key'' \<notin> fst ` set al \<Longrightarrow>
      ''api_key'' \<notin> fst ` set (AList.update k v al)"
    by (simp add: AList.dom_update)
  have d5: "\<And>x s. ''api_key'' \<notin> fst ` set
      (AList.update ''conversation'' (Val x) (AList.update ''model_engine'' (Val (VStr s))
         (AList.update ''bot_class'' (Val (VStr cn)) ?d2)))"
    by (intro up base) simp_all
  have d6: "\<And>x s v. ''api_key'' \<notin> fst ` set
      (AList.update ''tool_handler'' (Val v)
        (AList.update ''conversation'' (Val x) (AList.update ''model_engine'' (Val (VStr s))
           (AList.update ''bot_class'' (Val (VStr cn)) ?d2))))"
    by (intro up d5) simp
  have mp: "\<And>al b. (''api_key'', b) \<in> set (map (\<lambda>(key, value). (key, stringify str_of value)) al)
      \<Longrightarrow> ''api_key'' \<in> fst ` set al"
    by force
  from assms consider
      (a) x s where "record = map (\<lambda>(key, value). (key, stringify str_of value))
        (AList.update ''conversation'' (Val x) (AList.update ''model_engine'' (Val (VStr s))
           (AList.update ''bot_class'' (Val (VStr cn)) ?d2)))"
    | (b) x s v where "record = map (\<lambda>(key, value). (key, stringify str_of value))
        (AList.update ''tool_handler'' (Val v)
          (AList.update ''conversation'' (Val x) (AList.update ''model_engine'' (Val (VStr s))
             (AList.update ''bot_class'' (Val (VStr cn)) ?d2))))"
    unfolding save_def Let_def
    by (auto split: option.splits obj.splits sum.splits)
  then show ?thesis
  proof cases
    case a
    then show ?thesis using d5[of x s] mp by fastforce
  next
    case b
    then show ?thesis using d6[of v x s] mp by fastforce
  qed
qed

lemma ex_save: "save ex_to_dict ex_str_of 2 ex_heap ''AnthropicBot'' ex_self = Some (Inr ex_record)"
  by (simp add: save_def ex_self_def ex_heap_def ex_to_dict_def ex_str_of_def AList.delete_eq
     root_dict_def find_root_simps to_dict_self_def public_def less_eq_char_def less_char_def
     stringify_def numeral_2_eq_2 ex_record_def)

subsection \<open>The saved record\<close>

text \<open>
  Claim C9. The record that \<open>save\<close> writes has no field \<open>api_key\<close>, and it does not
  depend on the credential: two bots that differ only in the value of \<open>api_key\<close> give
  the same result, record or exception.
\<close>

theorem saved_record_has_no_api_key:
  "(save to_dict str_of fuel h cn d = Some (Inr record) \<longrightarrow>
      ''api_key'' \<notin> fst ` set record \<and> map_of record ''api_key'' = None) \<and>
   save to_dict str_of fuel h cn (AList.update ''api_key'' k1 d)
     = save to_dict str_of fuel h cn (AList.update ''api_key'' k2 d)"
proof (intro conjI impI)
  assume a: "save to_dict str_of fuel h cn d = Some (Inr record)"
  from save_keys[OF a] show "''api_key'' \<notin> fst ` set record" .
  then show "map_of record ''api_key'' = None" by (simp add: map_of_eq_None_iff)
next
  show "save to_dict str_of fuel h cn (AList.update ''api_key'' k1 d)
     = save to_dict str_of fuel h cn (AList.update ''api_key'' k2 d)"
    by (rule save_ignores_api_key)
qed

theorem saved_record_has_no_api_key_witness:
  "save ex_to_dict ex_str_of 2 ex_heap ''AnthropicBot'' ex_self = Some (Inr ex_record) \<and>
   map_of ex_self ''api_key'' = Some (Val (VStr ''sk-secret'')) \<and>
   map_of ex_record ''api_key'' = None \<and>
   AList.update ''api_key'' (Val (VStr ''sk-secret'')) ex_self = ex_self \<and>
   save ex_to_dict ex_str_of 2 ex_heap ''AnthropicBot''
       (AList.update ''api_key'' (Val (VStr ''sk-other'')) ex_self) = Some (Inr ex_record)"
proof -
  have 1: "map_of ex_self ''api_key'' = Some (Val (VStr ''sk-secret''))"
    and 2: "AList.update ''api_key'' (Val (VStr ''sk-secret'')) ex_self = ex_self"
    by (simp_all add: ex_self_def)
  from saved_record_has_no_api_key[of ex_to_dict ex_str_of 2 ex_heap "''AnthropicBot''" ex_self
      ex_record "Val (VStr ''sk-secret'')" "Val (VStr ''sk-other'')"] ex_save
  have "map_of ex_record ''api_key'' = None"
    and "save ex_to_dict ex_str_of 2 ex_heap ''AnthropicBot''
       (AList.update ''api_key'' (Val (VStr ''sk-other'')) ex_self) = Some (Inr ex_record)"
    by (simp_all only: 2)
  with ex_save 1 2 show ?thesis by blast
qed

end
